theory Spec2Isabelle
  imports Main "HOL-Library.Sublist" "HOL-Library.Multiset"
begin

section \<open>Values and the object store\<close>

text \<open>
  The library works on untyped JavaScript values. A number is an integer or one of the
  three special values on which the code's behaviour depends; a primitive is compared and
  copied by value; an object, an array or a date is a reference into the store, where a
  cell holds its own enumerable properties in insertion order. Arrays are dense. A string
  is a sequence of 8-bit code units, read as Latin-1.

  The members that a value inherits from the built-in prototypes (\<open>constructor\<close>,
  \<open>toString\<close>, \<open>hasOwnProperty\<close>, \<open>__proto__\<close> and the like) are objects of the platform
  and no values of the store. Which names they have is a parameter of the model, and
  an operation that reaches such a member has no result here.
\<close>

datatype jsnum = Fin int | PosInf | NegInf | NaN

datatype prim = PUndef | PNull | PBool bool | PNum jsnum | PStr string

type_synonym addr = nat

datatype val = Prim prim | Ref addr

datatype cell =
    Obj "(string \<times> val) list"
  | DateObj jsnum "(string \<times> val) list"
  | Arr "val list"

type_synonym heap = "cell list"

definition cellAt :: "heap \<Rightarrow> addr \<Rightarrow> cell option" where
  "cellAt h a = (if a < length h then Some (h ! a) else None)"

text \<open>\<open>ToBoolean\<close>: undefined, null, false, 0, NaN and the empty string are falsy.\<close>

fun truthy :: "val \<Rightarrow> bool" where
  "truthy (Prim PUndef) = False"
| "truthy (Prim PNull) = False"
| "truthy (Prim (PBool b)) = b"
| "truthy (Prim (PNum x)) = (x \<noteq> Fin 0 \<and> x \<noteq> NaN)"
| "truthy (Prim (PStr s)) = (s \<noteq> [])"
| "truthy (Ref a) = True"




text \<open>Own properties of an object cell: read, and write (\<open>o[k] = v\<close>: an existing key keeps
  its place, a new key goes last).\<close>

definition getOwn :: "(string \<times> val) list \<Rightarrow> string \<Rightarrow> val" where
  "getOwn kvs k = (case map_of kvs k of None \<Rightarrow> Prim PUndef | Some v \<Rightarrow> v)"

fun put :: "(string \<times> val) list \<Rightarrow> string \<Rightarrow> val \<Rightarrow> (string \<times> val) list" where
  "put [] k v = [(k, v)]"
| "put ((k', v') # kvs) k v = (if k' = k then (k, v) # kvs else (k', v') # put kvs k v)"

text \<open>The canonical array indices among the property keys: \<open>"0"\<close>, \<open>"1"\<close>, ... below \<open>2^32 - 1\<close>.\<close>

definition isDigit :: "char \<Rightarrow> bool" where
  "isDigit c = (48 \<le> (of_char c :: nat) \<and> (of_char c :: nat) \<le> 57)"

fun decimal :: "nat \<Rightarrow> string \<Rightarrow> nat" where
  "decimal acc [] = acc"
| "decimal acc (c # cs) = decimal (10 * acc + ((of_char c :: nat) - 48)) cs"

definition arrayIndex :: "string \<Rightarrow> nat option" where
  "arrayIndex k =
     (if k \<noteq> [] \<and> list_all isDigit k \<and> (length k = 1 \<or> hd k \<noteq> CHR ''0'')
         \<and> decimal 0 k < 4294967295
      then Some (decimal 0 k) else None)"

datatype error = Error string | TypeError

text \<open>\<open>o[k] = v\<close> on an object or date cell.\<close>

definition setOwn :: "heap \<Rightarrow> addr \<Rightarrow> string \<Rightarrow> val \<Rightarrow> heap" where
  "setOwn h a k v =
     (case cellAt h a of
        Some (Obj kvs) \<Rightarrow> h[a := Obj (put kvs k v)]
      | Some (DateObj t kvs) \<Rightarrow> h[a := DateObj t (put kvs k v)]
      | _ \<Rightarrow> h)"

definition ownProps :: "heap \<Rightarrow> val \<Rightarrow> (string \<times> val) list" where
  "ownProps h v =
     (case v of
        Ref a \<Rightarrow> (case cellAt h a of
                    Some (Obj kvs) \<Rightarrow> kvs
                  | Some (DateObj t kvs) \<Rightarrow> kvs
                  | _ \<Rightarrow> [])
      | _ \<Rightarrow> [])"

text \<open>
  The own properties of a value: a string has its length and its characters, an array
  its length and its elements, an object or a date the keys of its cell. \<open>owns\<close> tells
  whether \<open>k\<close> is one of them, and \<open>readProp\<close> is its value, undefined when there is none.
\<close>

definition owns :: "heap \<Rightarrow> val \<Rightarrow> string \<Rightarrow> bool" where
  "owns h v k =
     (case v of
        Prim (PStr s) \<Rightarrow>
          k = ''length'' \<or> (case arrayIndex k of Some i \<Rightarrow> i < length s | None \<Rightarrow> False)
      | Prim _ \<Rightarrow> False
      | Ref a \<Rightarrow>
          (case cellAt h a of
             Some (Arr xs) \<Rightarrow>
               k = ''length'' \<or> (case arrayIndex k of Some i \<Rightarrow> i < length xs | None \<Rightarrow> False)
           | _ \<Rightarrow> k \<in> fst ` set (ownProps h v)))"

definition readProp :: "heap \<Rightarrow> val \<Rightarrow> string \<Rightarrow> val" where
  "readProp h v k =
     (case v of
        Prim (PStr s) \<Rightarrow>
          (if k = ''length'' then Prim (PNum (Fin (int (length s))))
           else (case arrayIndex k of
                   Some i \<Rightarrow> if i < length s then Prim (PStr [s ! i]) else Prim PUndef
                 | None \<Rightarrow> Prim PUndef))
      | Prim _ \<Rightarrow> Prim PUndef
      | Ref a \<Rightarrow>
          (case cellAt h a of
             Some (Obj kvs) \<Rightarrow> getOwn kvs k
           | Some (DateObj t kvs) \<Rightarrow> getOwn kvs k
           | Some (Arr xs) \<Rightarrow>
               (if k = ''length'' then Prim (PNum (Fin (int (length xs))))
                else (case arrayIndex k of
                        Some i \<Rightarrow> if i < length xs then xs ! i else Prim PUndef
                      | None \<Rightarrow> Prim PUndef))
           | None \<Rightarrow> Prim PUndef))"

text \<open>
  What depends on the platform is a parameter of the model: the number format, \<open>ToString\<close>
  and \<open>ToPrimitive\<close> of an object, \<open>StringToNumber\<close>, and \<open>inherited\<close>, which tells whether
  a name is the name of a member of a built-in prototype.
\<close>

record engine =
  numberToString :: "jsnum \<Rightarrow> string"
  objectToString :: "heap \<Rightarrow> addr \<Rightarrow> string"
  stringToNumber :: "string \<Rightarrow> jsnum"
  toPrimitive :: "heap \<Rightarrow> addr \<Rightarrow> prim"
  inherited :: "string \<Rightarrow> bool"

text \<open>
  \<open>v[k]\<close>. Reading a property of undefined or null throws a TypeError. An own property
  is read from the store. A key that \<open>v\<close> does not own is looked up in the prototype chain:
  when it names a member of a built-in prototype the read has no result in the model
  (\<open>None\<close>), otherwise it gives undefined.
\<close>

definition getProp :: "engine \<Rightarrow> heap \<Rightarrow> val \<Rightarrow> string \<Rightarrow> (error + val) option" where
  "getProp E h v k =
     (if v = Prim PUndef \<or> v = Prim PNull then Some (Inl TypeError)
      else if owns h v k then Some (Inr (readProp h v k))
      else if inherited E k then None
      else Some (Inr (Prim PUndef)))"

text \<open>
  \<open>v.hasOwnProperty(k)\<close>. The method is looked up like any property: on undefined and
  null the call throws, and so it does when \<open>v\<close> owns a property named \<open>hasOwnProperty\<close>,
  whose value, a value of the store, is no function. Otherwise the built-in method runs.
\<close>

definition hasOwn :: "heap \<Rightarrow> val \<Rightarrow> string \<Rightarrow> error + bool" where
  "hasOwn h v k =
     (if v = Prim PUndef \<or> v = Prim PNull then Inl TypeError
      else if owns h v ''hasOwnProperty'' then Inl TypeError
      else Inr (owns h v k))"

text \<open>
  \<open>v[k] = x\<close>. The code runs in strict mode (\<open>'use strict'\<close> heads the module), where an
  assignment to a property of a primitive throws a TypeError. A key that \<open>v\<close> does not own
  and that names a member of a built-in prototype may name a setter (\<open>__proto__\<close>): the
  assignment has no result in the model. An assignment to an array element in range or
  one past the end keeps the array dense; any other assignment to an array (a named
  property, an index leaving holes) has no counterpart among the cells and gives \<open>None\<close>.
\<close>

definition putProp :: "engine \<Rightarrow> heap \<Rightarrow> val \<Rightarrow> string \<Rightarrow> val \<Rightarrow> (error + heap) option" where
  "putProp E h v k x =
     (if v = Prim PUndef \<or> v = Prim PNull then Some (Inl TypeError)
      else if \<not> owns h v k \<and> inherited E k then None
      else (case v of
              Prim p \<Rightarrow> Some (Inl TypeError)
            | Ref a \<Rightarrow>
                (case cellAt h a of
                   None \<Rightarrow> None
                 | Some (Arr xs) \<Rightarrow>
                     (case arrayIndex k of
                        None \<Rightarrow> None
                      | Some i \<Rightarrow>
                          if i < length xs then Some (Inr (h[a := Arr (xs[i := x])]))
                          else if i = length xs then Some (Inr (h[a := Arr (xs @ [x])]))
                          else None)
                 | Some c \<Rightarrow> Some (Inr (setOwn h a k x)))))"

section \<open>Utils\<close>

text \<open>\<open>isObject\<close>: \<open>value !== null && typeof value === 'object' && !Array.isArray(value)\<close>.\<close>

definition isObject :: "heap \<Rightarrow> val \<Rightarrow> bool" where
  "isObject h v =
     (case v of
        Ref a \<Rightarrow> (case cellAt h a of Some (Arr xs) \<Rightarrow> False | Some c \<Rightarrow> True | None \<Rightarrow> False)
      | _ \<Rightarrow> False)"

text \<open>
  \<open>deepClone\<close>. The recursion follows references, so it is bounded by fuel: \<open>None\<close> means
  that the fuel ran out (as on a cyclic value, which the source does not guard against)
  or that a reference points outside the store. A fresh container enters the store when
  its entries are computed; nothing but the loop filling it can reach it before. The loop
  over an object copies each own key; the keys are taken as they are in plain data, where
  none is named \<open>hasOwnProperty\<close> or \<open>__proto__\<close>.
\<close>

fun deepClone :: "nat \<Rightarrow> heap \<Rightarrow> val \<Rightarrow> (heap \<times> val) option"
  and cloneItems :: "nat \<Rightarrow> heap \<Rightarrow> val list \<Rightarrow> (heap \<times> val list) option"
  and cloneProps :: "nat \<Rightarrow> heap \<Rightarrow> (string \<times> val) list \<Rightarrow> (heap \<times> (string \<times> val) list) option"
where
  "deepClone 0 h obj = None"
| "deepClone (Suc n) h (Prim p) = Some (h, Prim p)"
| "deepClone (Suc n) h (Ref a) =
     (case cellAt h a of
        None \<Rightarrow> None
      | Some (DateObj t kvs) \<Rightarrow> Some (h @ [DateObj t []], Ref (length h))
      | Some (Arr xs) \<Rightarrow>
          (case cloneItems n h xs of
             None \<Rightarrow> None
           | Some (h', ys) \<Rightarrow> Some (h' @ [Arr ys], Ref (length h')))
      | Some (Obj kvs) \<Rightarrow>
          (case cloneProps n h kvs of
             None \<Rightarrow> None
           | Some (h', kvs') \<Rightarrow> Some (h' @ [Obj kvs'], Ref (length h'))))"
| "cloneItems n h [] = Some (h, [])"
| "cloneItems n h (x # xs) =
     (case deepClone n h x of
        None \<Rightarrow> None
      | Some (h1, y) \<Rightarrow>
          (case cloneItems n h1 xs of
             None \<Rightarrow> None
           | Some (h2, ys) \<Rightarrow> Some (h2, y # ys)))"
| "cloneProps n h [] = Some (h, [])"
| "cloneProps n h ((k, x) # kvs) =
     (case deepClone n h x of
        None \<Rightarrow> None
      | Some (h1, y) \<Rightarrow>
          (case cloneProps n h1 kvs of
             None \<Rightarrow> None
           | Some (h2, kvs') \<Rightarrow> Some (h2, (k, y) # kvs')))"

text \<open>
  \<open>deepMerge\<close>. \<open>result\<close> is the clone of \<open>target\<close>; the loop runs over the own keys of
  \<open>source\<close> and assigns to \<open>result\<close> only. For a key whose source value is an object the
  source first stores a fresh \<open>{}\<close> in \<open>result\<close> when \<open>target[key]\<close> is falsy, and then
  stores the merge of \<open>target[key]\<close> (not of \<open>result[key]\<close>) with the source value. The
  keys are plain, as in \<open>deepClone\<close>, and \<open>target[key]\<close> is the own property of \<open>target\<close>.
\<close>

fun deepMerge :: "nat \<Rightarrow> heap \<Rightarrow> val \<Rightarrow> val \<Rightarrow> (heap \<times> val) option"
  and mergeKeys :: "nat \<Rightarrow> heap \<Rightarrow> val \<Rightarrow> addr \<Rightarrow> (string \<times> val) list \<Rightarrow> heap option"
where
  "deepMerge 0 h target source = None"
| "deepMerge (Suc n) h target source =
     (case deepClone (Suc n) h target of
        None \<Rightarrow> None
      | Some (h1, result) \<Rightarrow>
          if isObject h1 target \<and> isObject h1 source
          then (case result of
                  Ref r \<Rightarrow>
                    (case mergeKeys n h1 target r (ownProps h1 source) of
                       None \<Rightarrow> None
                     | Some h2 \<Rightarrow> Some (h2, result))
                | Prim p \<Rightarrow> Some (h1, result))
          else Some (h1, result))"
| "mergeKeys n h target r [] = Some h"
| "mergeKeys n h target r ((key, sv) # rest) =
     (if isObject h sv
      then (let h1 = (if \<not> truthy (readProp h target key)
                      then setOwn (h @ [Obj []]) r key (Ref (length h))
                      else h)
            in case deepMerge n h1 (readProp h1 target key) sv of
                 None \<Rightarrow> None
               | Some (h2, m) \<Rightarrow> mergeKeys n (setOwn h2 r key m) target r rest)
      else mergeKeys n (setOwn h r key sv) target r rest)"


text \<open>
  \<open>isEqual\<close>. On two objects the loop runs over \<open>Object.keys(a)\<close> and stops at the first
  key that \<open>b\<close> lacks, at the first pair of unequal values, or with the TypeError of
  \<open>b.hasOwnProperty(keysA[i])\<close> when \<open>b\<close> owns a property of that name. The keys of a dense
  array are its indices, so on two arrays of one length \<open>b.hasOwnProperty(keysA[i])\<close> holds
  and the loop compares the elements in turn.
\<close>

definition isArray :: "heap \<Rightarrow> val \<Rightarrow> bool" where
  "isArray h v =
     (case v of
        Ref a \<Rightarrow> (case cellAt h a of Some (Arr xs) \<Rightarrow> True | _ \<Rightarrow> False)
      | _ \<Rightarrow> False)"

definition items :: "heap \<Rightarrow> val \<Rightarrow> val list" where
  "items h v =
     (case v of
        Ref a \<Rightarrow> (case cellAt h a of Some (Arr xs) \<Rightarrow> xs | _ \<Rightarrow> [])
      | _ \<Rightarrow> [])"





text \<open>\<open>path.split('.')\<close>: never empty; an empty path gives one empty segment.\<close>

fun splitPath :: "string \<Rightarrow> string list" where
  "splitPath [] = [[]]"
| "splitPath (c # cs) =
     (if c = CHR ''.'' then [] # splitPath cs
      else (case splitPath cs of
              [] \<Rightarrow> [[c]]
            | w # ws \<Rightarrow> (c # w) # ws))"

text \<open>\<open>get\<close>: the loop returns the default as soon as \<open>current\<close> is null or undefined,
  and once more when the value found at the end is undefined.\<close>

fun getLoop :: "engine \<Rightarrow> heap \<Rightarrow> val \<Rightarrow> string list \<Rightarrow> val \<Rightarrow> (error + val) option" where
  "getLoop E h current [] defaultValue =
     Some (Inr (if current \<noteq> Prim PUndef then current else defaultValue))"
| "getLoop E h current (k # ks) defaultValue =
     (if current = Prim PNull \<or> current = Prim PUndef then Some (Inr defaultValue)
      else (case getProp E h current k of
              None \<Rightarrow> None
            | Some r \<Rightarrow>
                (case r of
                   Inl e \<Rightarrow> Some (Inl e)
                 | Inr v \<Rightarrow> getLoop E h v ks defaultValue)))"

definition get :: "engine \<Rightarrow> heap \<Rightarrow> val \<Rightarrow> string \<Rightarrow> val \<Rightarrow> (error + val) option" where
  "get E h obj path defaultValue =
     (if \<not> isObject h obj then Some (Inr defaultValue)
      else getLoop E h obj (splitPath path) defaultValue)"

text \<open>
  \<open>set\<close>. The loop tests \<open>!current[keys[i]]\<close>: an intermediate value is replaced by a
  fresh \<open>{}\<close> when it is falsy, and followed otherwise, whatever it is.
\<close>

fun setLoop :: "engine \<Rightarrow> heap \<Rightarrow> val \<Rightarrow> string list \<Rightarrow> val \<Rightarrow> (error + heap) option" where
  "setLoop E h current [] x = putProp E h current ''undefined'' x"
| "setLoop E h current [k] x = putProp E h current k x"
| "setLoop E h current (k # ks) x =
     (case getProp E h current k of
        None \<Rightarrow> None
      | Some r \<Rightarrow>
          (case r of
             Inl e \<Rightarrow> Some (Inl e)
           | Inr v \<Rightarrow>
               if \<not> truthy v
               then (case putProp E (h @ [Obj []]) current k (Ref (length h)) of
                       None \<Rightarrow> None
                     | Some w \<Rightarrow>
                         (case w of
                            Inl e \<Rightarrow> Some (Inl e)
                          | Inr h1 \<Rightarrow>
                              (case getProp E h1 current k of
                                 None \<Rightarrow> None
                               | Some r1 \<Rightarrow>
                                   (case r1 of
                                      Inl e \<Rightarrow> Some (Inl e)
                                    | Inr v1 \<Rightarrow> setLoop E h1 v1 ks x))))
               else setLoop E h v ks x))"

text \<open>\<open>set\<close> returns \<open>obj\<close> itself; the model returns the store after the call.\<close>

definition set_path :: "engine \<Rightarrow> heap \<Rightarrow> val \<Rightarrow> string \<Rightarrow> val \<Rightarrow> (error + heap) option" where
  "set_path E h obj path x =
     (if \<not> isObject h obj then Some (Inr h)
      else setLoop E h obj (splitPath path) x)"

section \<open>Data\<close>

text \<open>
  \<open>flatten\<close>. \<open>depth = depth || Infinity\<close> replaces an omitted and every falsy depth. The
  arrays that \<open>flattenRecursive\<close> builds are fresh and local; the model returns their
  contents. The loop over an object reads the values of its own keys in order; the keys
  are plain, as in \<open>deepClone\<close>.
\<close>

fun numGe :: "jsnum \<Rightarrow> jsnum \<Rightarrow> bool" where
  "numGe NaN y = False"
| "numGe x NaN = False"
| "numGe PosInf y = True"
| "numGe x NegInf = True"
| "numGe (Fin i) (Fin j) = (j \<le> i)"
| "numGe x y = False"

fun flattenRecursive :: "nat \<Rightarrow> heap \<Rightarrow> jsnum \<Rightarrow> val \<Rightarrow> nat \<Rightarrow> val list option"
  and flattenEach :: "nat \<Rightarrow> heap \<Rightarrow> jsnum \<Rightarrow> val list \<Rightarrow> nat \<Rightarrow> val list option"
where
  "flattenRecursive 0 h depth item currentDepth = None"
| "flattenRecursive (Suc n) h depth item currentDepth =
     (if numGe (Fin (int currentDepth)) depth then Some [item]
      else (case item of
              Prim p \<Rightarrow> Some [item]
            | Ref a \<Rightarrow>
                (case cellAt h a of
                   None \<Rightarrow> None
                 | Some (Arr xs) \<Rightarrow> flattenEach n h depth xs (currentDepth + 1)
                 | Some c \<Rightarrow> flattenEach n h depth (map snd (ownProps h item)) (currentDepth + 1))))"
| "flattenEach n h depth [] d = Some []"
| "flattenEach n h depth (x # xs) d =
     (case flattenRecursive n h depth x d of
        None \<Rightarrow> None
      | Some ys \<Rightarrow>
          (case flattenEach n h depth xs d of
             None \<Rightarrow> None
           | Some zs \<Rightarrow> Some (ys @ zs)))"

text \<open>The \<open>depth\<close> argument is a number or is omitted.\<close>

definition flatten :: "nat \<Rightarrow> heap \<Rightarrow> val \<Rightarrow> jsnum option \<Rightarrow> val list option" where
  "flatten n h data depth =
     flattenRecursive n h
       (case depth of
          None \<Rightarrow> PosInf
        | Some d \<Rightarrow> if truthy (Prim (PNum d)) then d else PosInf)
       data 0"


text \<open>
  \<open>groupBy\<close>. The key is a property name or a function; the group key becomes a property
  key of \<open>result\<close>, so a value that is not a string is converted by the engine's
  \<open>ToString\<close>. The fresh \<open>result\<close> and its arrays are returned by content.
\<close>

definition toPropertyKey :: "engine \<Rightarrow> heap \<Rightarrow> val \<Rightarrow> string" where
  "toPropertyKey E h v =
     (case v of
        Prim PUndef \<Rightarrow> ''undefined''
      | Prim PNull \<Rightarrow> ''null''
      | Prim (PBool b) \<Rightarrow> (if b then ''true'' else ''false'')
      | Prim (PNum x) \<Rightarrow> numberToString E x
      | Prim (PStr s) \<Rightarrow> s
      | Ref a \<Rightarrow> objectToString E h a)"

datatype keysel = KeyName string | KeyFn "heap \<Rightarrow> val \<Rightarrow> error + val"

definition getKey :: "engine \<Rightarrow> heap \<Rightarrow> keysel \<Rightarrow> val \<Rightarrow> (error + val) option" where
  "getKey E h key item =
     (case key of KeyFn f \<Rightarrow> Some (f h item) | KeyName k \<Rightarrow> getProp E h item k)"

text \<open>
  \<open>if (!result[groupKey]) result[groupKey] = []; result[groupKey].push(item)\<close>. A group
  key already present holds an array, which is truthy. For a key not yet present the read
  \<open>result[groupKey]\<close> goes to the prototype of \<open>result\<close>: a name that is inherited finds a
  member of the platform there, and the model has no result; any other name finds
  undefined, and the group is created.
\<close>

definition pushGroup :: "engine \<Rightarrow> (string \<times> val list) list \<Rightarrow> string \<Rightarrow> val
    \<Rightarrow> (string \<times> val list) list option" where
  "pushGroup E result g x =
     (case map_of result g of
        None \<Rightarrow> if inherited E g then None else Some (result @ [(g, [x])])
      | Some ys \<Rightarrow> Some (map (\<lambda>kv. if fst kv = g then (g, snd kv @ [x]) else kv) result))"

fun groupLoop :: "engine \<Rightarrow> heap \<Rightarrow> keysel \<Rightarrow> val list \<Rightarrow> (string \<times> val list) list
    \<Rightarrow> (error + (string \<times> val list) list) option" where
  "groupLoop E h key [] result = Some (Inr result)"
| "groupLoop E h key (x # xs) result =
     (case getKey E h key x of
        None \<Rightarrow> None
      | Some r \<Rightarrow>
          (case r of
             Inl e \<Rightarrow> Some (Inl e)
           | Inr g \<Rightarrow>
               (case pushGroup E result (toPropertyKey E h g) x of
                  None \<Rightarrow> None
                | Some result' \<Rightarrow> groupLoop E h key xs result')))"

definition groupBy :: "engine \<Rightarrow> heap \<Rightarrow> val \<Rightarrow> keysel
    \<Rightarrow> (error + (string \<times> val list) list) option" where
  "groupBy E h array key =
     (if \<not> isArray h array then Some (Inl (Error ''Input must be an array''))
      else groupLoop E h key (items h array) [])"







text \<open>
  \<open>sortBy\<close>. \<open>toLowerCase\<close> maps the capital letters of Latin-1: \<open>A\<close> to \<open>Z\<close>, and the
  letters from U+00C0 to U+00DE but the multiplication sign U+00D7. \<open>x < y\<close> compares two
  strings by code units and anything else as numbers, after the engine's \<open>ToPrimitive\<close>
  on an object and \<open>StringToNumber\<close> on a string.
\<close>

definition lowerChar :: "char \<Rightarrow> char" where
  "lowerChar c =
     (if (65 \<le> (of_char c :: nat) \<and> (of_char c :: nat) \<le> 90)
         \<or> (192 \<le> (of_char c :: nat) \<and> (of_char c :: nat) \<le> 222 \<and> (of_char c :: nat) \<noteq> 215)
      then char_of ((of_char c :: nat) + 32) else c)"

definition toLowerCase :: "string \<Rightarrow> string" where
  "toLowerCase s = map lowerChar s"

fun strLess :: "string \<Rightarrow> string \<Rightarrow> bool" where
  "strLess [] [] = False"
| "strLess [] (y # ys) = True"
| "strLess (x # xs) [] = False"
| "strLess (x # xs) (y # ys) =
     ((of_char x :: nat) < of_char y \<or> (x = y \<and> strLess xs ys))"

fun numLess :: "jsnum \<Rightarrow> jsnum \<Rightarrow> bool" where
  "numLess NaN y = False"
| "numLess x NaN = False"
| "numLess (Fin i) (Fin j) = (i < j)"
| "numLess (Fin i) PosInf = True"
| "numLess NegInf (Fin j) = True"
| "numLess NegInf PosInf = True"
| "numLess x y = False"

definition toNumber :: "engine \<Rightarrow> prim \<Rightarrow> jsnum" where
  "toNumber E p =
     (case p of
        PUndef \<Rightarrow> NaN
      | PNull \<Rightarrow> Fin 0
      | PBool b \<Rightarrow> Fin (if b then 1 else 0)
      | PNum x \<Rightarrow> x
      | PStr s \<Rightarrow> stringToNumber E s)"

definition toPrim :: "engine \<Rightarrow> heap \<Rightarrow> val \<Rightarrow> prim" where
  "toPrim E h v = (case v of Prim p \<Rightarrow> p | Ref a \<Rightarrow> toPrimitive E h a)"

definition jsLess :: "engine \<Rightarrow> heap \<Rightarrow> val \<Rightarrow> val \<Rightarrow> bool" where
  "jsLess E h a b =
     (case toPrim E h a of
        PStr s \<Rightarrow>
          (case toPrim E h b of
             PStr t \<Rightarrow> strLess s t
           | q \<Rightarrow> numLess (stringToNumber E s) (toNumber E q))
      | p \<Rightarrow> numLess (toNumber E p) (toNumber E (toPrim E h b)))"

definition lowered :: "val \<Rightarrow> val" where
  "lowered v = (case v of Prim (PStr s) \<Rightarrow> Prim (PStr (toLowerCase s)) | _ \<Rightarrow> v)"

text \<open>The comparator: the loop over \<open>keys\<close>, with \<open>orders[i] || 'asc'\<close>. It is called on
  elements whose keys can be read, so \<open>a[k]\<close> is the own property or undefined.\<close>

definition orderAt :: "string list \<Rightarrow> string" where
  "orderAt orders = (case orders of [] \<Rightarrow> ''asc'' | x # xs \<Rightarrow> if x = [] then ''asc'' else x)"

fun comparator :: "engine \<Rightarrow> heap \<Rightarrow> string list \<Rightarrow> string list \<Rightarrow> val \<Rightarrow> val \<Rightarrow> int" where
  "comparator E h [] orders a b = 0"
| "comparator E h (k # ks) orders a b =
     (if jsLess E h (lowered (readProp h a k)) (lowered (readProp h b k))
        then (if orderAt orders = ''asc'' then - 1 else 1)
      else if jsLess E h (lowered (readProp h b k)) (lowered (readProp h a k))
        then (if orderAt orders = ''asc'' then 1 else - 1)
      else comparator E h ks (tl orders) a b)"

datatype keyArg = OneKey string | KeyList "string list"

datatype orderArg = NoOrder | OneOrder string | OrderList "string list"

definition keysOf :: "keyArg \<Rightarrow> string list" where
  "keysOf key = (case key of OneKey k \<Rightarrow> [k] | KeyList ks \<Rightarrow> ks)"

definition ordersOf :: "orderArg \<Rightarrow> string list" where
  "ordersOf order =
     (case order of
        NoOrder \<Rightarrow> [''asc'']
      | OneOrder s \<Rightarrow> [if s = [] then ''asc'' else s]
      | OrderList os \<Rightarrow> os)"

text \<open>
  \<open>Array.prototype.sort\<close> is stable. With a consistent comparator its result is
  determined: the sorted arrangement that keeps elements comparing equal in their order;
  the model computes it by insertion. Undefined elements go last and are never compared.
  With two or more other elements and at least one key each of them is compared at least
  once, and each comparison starts by reading the first key of both: the comparator
  throws a TypeError when it reads a key of null. In this case the model has a result
  only when every key can be read on each of these elements without reaching an
  inherited member. \<open>sortBy\<close> sorts \<open>array.slice()\<close>: the result is a new
  array, the last cell of the store after the call.
\<close>

fun insertBy :: "(val \<Rightarrow> val \<Rightarrow> int) \<Rightarrow> val \<Rightarrow> val list \<Rightarrow> val list" where
  "insertBy cmp x [] = [x]"
| "insertBy cmp x (y # ys) = (if cmp x y > 0 then y # insertBy cmp x ys else x # y # ys)"

fun sortWith :: "(val \<Rightarrow> val \<Rightarrow> int) \<Rightarrow> val list \<Rightarrow> val list" where
  "sortWith cmp [] = []"
| "sortWith cmp (x # xs) = insertBy cmp x (sortWith cmp xs)"

definition readable :: "engine \<Rightarrow> heap \<Rightarrow> string list \<Rightarrow> val \<Rightarrow> bool" where
  "readable E h ks x = list_all (\<lambda>k. getProp E h x k \<noteq> None) ks"

definition sortBy :: "engine \<Rightarrow> heap \<Rightarrow> val \<Rightarrow> keyArg \<Rightarrow> orderArg \<Rightarrow> (error + heap \<times> val) option" where
  "sortBy E h array key order =
     (if \<not> isArray h array then Some (Inl (Error ''Input must be an array''))
      else (let present = filter (\<lambda>x. x \<noteq> Prim PUndef) (items h array);
                absent = filter (\<lambda>x. x = Prim PUndef) (items h array);
                sorted = sortWith (comparator E h (keysOf key) (ordersOf order)) present @ absent
            in if length present < 2 \<or> keysOf key = []
                 then Some (Inr (h @ [Arr sorted], Ref (length h)))
               else if \<not> list_all (readable E h (keysOf key)) present then None
               else if Prim PNull \<in> set present then Some (Inl TypeError)
               else Some (Inr (h @ [Arr sorted], Ref (length h)))))"

section \<open>The value a reference denotes\<close>

text \<open>
  A value of the data model is finite: unfolding the references from it ends. \<open>treeOf\<close>
  unfolds a value of the store into the tree it denotes, each container with its address;
  it gives \<open>None\<close> on a cycle deeper than the fuel, on a reference outside the store, and
  on a cell that repeats a key, which is no object.
\<close>

datatype tree =
    TPrim prim
  | TDate addr jsnum "(string \<times> tree) list"
  | TArr addr "tree list"
  | TObj addr "(string \<times> tree) list"

fun treeOf :: "nat \<Rightarrow> heap \<Rightarrow> val \<Rightarrow> tree option"
  and treesOf :: "nat \<Rightarrow> heap \<Rightarrow> val list \<Rightarrow> tree list option"
  and entriesOf :: "nat \<Rightarrow> heap \<Rightarrow> (string \<times> val) list \<Rightarrow> (string \<times> tree) list option"
where
  "treeOf 0 h v = None"
| "treeOf (Suc n) h (Prim p) = Some (TPrim p)"
| "treeOf (Suc n) h (Ref a) =
     (case cellAt h a of
        None \<Rightarrow> None
      | Some (Arr xs) \<Rightarrow> map_option (TArr a) (treesOf n h xs)
      | Some (Obj kvs) \<Rightarrow>
          if distinct (map fst kvs) then map_option (TObj a) (entriesOf n h kvs) else None
      | Some (DateObj t kvs) \<Rightarrow>
          if distinct (map fst kvs) then map_option (TDate a t) (entriesOf n h kvs) else None)"
| "treesOf n h [] = Some []"
| "treesOf n h (x # xs) =
     (case treeOf n h x of
        None \<Rightarrow> None
      | Some t \<Rightarrow> map_option ((#) t) (treesOf n h xs))"
| "entriesOf n h [] = Some []"
| "entriesOf n h ((k, x) # kvs) =
     (case treeOf n h x of
        None \<Rightarrow> None
      | Some t \<Rightarrow> map_option ((#) (k, t)) (entriesOf n h kvs))"

text \<open>The tree without the addresses. A date counts by its time alone.\<close>

datatype shape =
    SPrim prim
  | SDate jsnum
  | SArr "shape list"
  | SObj "(string \<times> shape) list"

fun shapeOf :: "tree \<Rightarrow> shape" where
  "shapeOf (TPrim p) = SPrim p"
| "shapeOf (TDate a t kts) = SDate t"
| "shapeOf (TArr a ts) = SArr (map shapeOf ts)"
| "shapeOf (TObj a kts) = SObj (map (\<lambda>kt. (fst kt, shapeOf (snd kt))) kts)"

text \<open>The addresses of the containers of a tree: the cells the value reaches.\<close>

fun addrs :: "tree \<Rightarrow> addr set" where
  "addrs (TPrim p) = {}"
| "addrs (TDate a t kts) = insert a (\<Union>kt \<in> set kts. addrs (snd kt))"
| "addrs (TArr a ts) = insert a (\<Union>t \<in> set ts. addrs t)"
| "addrs (TObj a kts) = insert a (\<Union>kt \<in> set kts. addrs (snd kt))"


text \<open>The leaves of a tree in traversal order: what is left of a value once every
  container is flattened away.\<close>

fun leaves :: "tree \<Rightarrow> val list" where
  "leaves (TPrim p) = [Prim p]"
| "leaves (TDate a t kts) = concat (map (\<lambda>kt. leaves (snd kt)) kts)"
| "leaves (TArr a ts) = concat (map leaves ts)"
| "leaves (TObj a kts) = concat (map (\<lambda>kt. leaves (snd kt)) kts)"


text \<open>The value stored at a path: each segment is an own property of the value before
  it. \<open>None\<close>: a segment is missing.\<close>

fun resolve :: "heap \<Rightarrow> val \<Rightarrow> string list \<Rightarrow> val option" where
  "resolve h v [] = Some v"
| "resolve h v (k # ks) = (if owns h v k then resolve h (readProp h v k) ks else None)"


text \<open>
  Two readings of a path in a store, for \<open>set\<close>. \<open>viaMappings\<close>: before the call, every
  value that the loop meets at an intermediate segment is falsy (absent, undefined, null,
  false, 0, NaN, the empty string) or a keyed mapping. \<open>mappingsTo\<close>: every value before
  the last segment is a keyed mapping.
\<close>

fun viaMappings :: "heap \<Rightarrow> val \<Rightarrow> string list \<Rightarrow> bool" where
  "viaMappings h v [] = True"
| "viaMappings h v [k] = True"
| "viaMappings h v (k # ks) =
     (\<not> truthy (readProp h v k)
      \<or> (isObject h (readProp h v k) \<and> viaMappings h (readProp h v k) ks))"

fun mappingsTo :: "heap \<Rightarrow> val \<Rightarrow> string list \<Rightarrow> bool" where
  "mappingsTo h v [] = True"
| "mappingsTo h v [k] = isObject h v"
| "mappingsTo h v (k # ks) = (isObject h v \<and> mappingsTo h (readProp h v k) ks)"

text \<open>
  The fresh mappings that \<open>set\<close> creates for the segments after the first one that is
  absent or falsy: one cell for each but the last, each holding the next under its
  segment, and the last holding the value. \<open>L\<close> is the address of the first.
\<close>

fun chain :: "addr \<Rightarrow> string list \<Rightarrow> val \<Rightarrow> cell list" where
  "chain L [] x = []"
| "chain L [k] x = [Obj [(k, x)]]"
| "chain L (k # ks) x = Obj [(k, Ref (Suc L))] # chain (Suc L) ks x"

text \<open>
  Two cells hold the same object when they are of one kind and have the same entries.
  The order in which a cell lists its keys is left open: the store lists them as they
  were inserted, which is the order of enumeration for all keys but array indices.
\<close>

definition sameCell :: "cell \<Rightarrow> cell \<Rightarrow> bool" where
  "sameCell c d =
     (case c of
        Obj p \<Rightarrow> (case d of Obj q \<Rightarrow> set p = set q | _ \<Rightarrow> False)
      | DateObj t p \<Rightarrow> (case d of DateObj u q \<Rightarrow> t = u \<and> set p = set q | _ \<Rightarrow> False)
      | Arr xs \<Rightarrow> (case d of Arr ys \<Rightarrow> xs = ys | _ \<Rightarrow> False))"

text \<open>
  For \<open>sortBy\<close>. A comparator is consistent on a set when its signs agree both ways
  round and "not after" is transitive; then the stable sorted arrangement exists and is
  unique. \<open>keyLess\<close> is the test \<open>valA < valB\<close> of the comparator at one key, and a key is
  uniform over a sequence when every element holds a string there, or every element a
  number other than NaN.
\<close>

definition consistentOn :: "(val \<Rightarrow> val \<Rightarrow> int) \<Rightarrow> val set \<Rightarrow> bool" where
  "consistentOn cmp S =
     ((\<forall>a \<in> S. \<forall>b \<in> S. (0 < cmp a b \<longrightarrow> cmp b a < 0) \<and> (cmp a b = 0 \<longrightarrow> cmp b a = 0))
      \<and> (\<forall>a \<in> S. \<forall>b \<in> S. \<forall>c \<in> S. cmp a b \<le> 0 \<and> cmp b c \<le> 0 \<longrightarrow> cmp a c \<le> 0))"

definition keyLess :: "engine \<Rightarrow> heap \<Rightarrow> string \<Rightarrow> val \<Rightarrow> val \<Rightarrow> bool" where
  "keyLess E h k a b = jsLess E h (lowered (readProp h a k)) (lowered (readProp h b k))"

definition uniformAt :: "heap \<Rightarrow> string \<Rightarrow> val list \<Rightarrow> bool" where
  "uniformAt h k xs =
     ((\<forall>x \<in> set xs. \<exists>s. readProp h x k = Prim (PStr s))
      \<or> (\<forall>x \<in> set xs. \<exists>n. readProp h x k = Prim (PNum n) \<and> n \<noteq> NaN))"

text \<open>
  The order that a multi-key sort is to produce. Text is compared without regard to
  case and numbers by size. An order entry that is missing, empty or \<open>'asc'\<close> is
  ascending; any other entry is descending. Of two elements the first key at which their
  values differ decides: ascending, the smaller value comes first; descending, the
  greater. Elements that differ at no key are tied.
\<close>

fun valueLess :: "val \<Rightarrow> val \<Rightarrow> bool" where
  "valueLess (Prim (PStr s)) (Prim (PStr t)) = strLess (toLowerCase s) (toLowerCase t)"
| "valueLess (Prim (PNum x)) (Prim (PNum y)) = numLess x y"
| "valueLess a b = False"

definition ascending :: "string list \<Rightarrow> bool" where
  "ascending orders = (case orders of [] \<Rightarrow> True | x # xs \<Rightarrow> x = [] \<or> x = ''asc'')"

fun inOrder :: "heap \<Rightarrow> string list \<Rightarrow> string list \<Rightarrow> val \<Rightarrow> val \<Rightarrow> bool" where
  "inOrder h [] orders a b = True"
| "inOrder h (k # ks) orders a b =
     (if valueLess (readProp h a k) (readProp h b k) then ascending orders
      else if valueLess (readProp h b k) (readProp h a k) then \<not> ascending orders
      else inOrder h ks (tl orders) a b)"

definition tied :: "heap \<Rightarrow> string list \<Rightarrow> val \<Rightarrow> val \<Rightarrow> bool" where
  "tied h ks a b =
     list_all (\<lambda>k. \<not> valueLess (readProp h a k) (readProp h b k)
                  \<and> \<not> valueLess (readProp h b k) (readProp h a k)) ks"

text \<open>
  The names of the members of \<open>Object.prototype\<close>, which every object inherits: an engine
  for the examples tells these names apart.
\<close>

definition objectPrototype :: "string list" where
  "objectPrototype =
     [''constructor'', ''__defineGetter__'', ''__defineSetter__'', ''hasOwnProperty'',
      ''__lookupGetter__'', ''__lookupSetter__'', ''isPrototypeOf'', ''propertyIsEnumerable'',
      ''toString'', ''valueOf'', ''__proto__'', ''toLocaleString'']"

section \<open>Properties\<close>

lemmas store_defs = cellAt_def isObject_def isArray_def items_def ownProps_def readProp_def
  getOwn_def setOwn_def

subsection \<open>deepMerge and a mapping that only the source has\<close>

text \<open>
  C1. \<open>deepMerge(a, b)\<close> should equal \<open>b\<close> at every key present only in \<open>b\<close>. For
  \<open>a = {}\<close> and \<open>b = {a: {x: 1}}\<close> (cells 0, 2 and 1 of the store) the source stores a
  fresh \<open>{}\<close> at \<open>result.a\<close> and then overwrites it with \<open>deepMerge(undefined, {x: 1})\<close>,
  which is the clone of \<open>undefined\<close>: the result, cell 3, is \<open>{a: undefined}\<close>, and the
  mapping of \<open>b\<close> is lost.
\<close>

theorem deepMerge_loses_mapping_only_in_source:
  "deepMerge 3 [Obj [], Obj [(''x'', Prim (PNum (Fin 1)))], Obj [(''a'', Ref 1)]] (Ref 0) (Ref 2)
     = Some ([Obj [], Obj [(''x'', Prim (PNum (Fin 1)))], Obj [(''a'', Ref 1)],
              Obj [(''a'', Prim PUndef)], Obj []], Ref 3)"
  by (simp add: numeral_3_eq_3 store_defs)

subsection \<open>flatten with depth 0\<close>

lemma flattenEach_trees:
  assumes "\<And>v t d. treeOf n h v = Some t \<Longrightarrow> flattenRecursive n h PosInf v d = Some (leaves t)"
  shows "treesOf n h xs = Some ts \<Longrightarrow> flattenEach n h PosInf xs d = Some (concat (map leaves ts))"
proof (induction xs arbitrary: ts)
  case Nil
  then show ?case by simp
next
  case (Cons x xs)
  then show ?case using assms by (auto split: option.splits)
qed

lemma flattenEach_entries:
  assumes "\<And>v t d. treeOf n h v = Some t \<Longrightarrow> flattenRecursive n h PosInf v d = Some (leaves t)"
  shows "entriesOf n h kvs = Some kts \<Longrightarrow>
         flattenEach n h PosInf (map snd kvs) d = Some (concat (map (\<lambda>kt. leaves (snd kt)) kts))"
proof (induction kvs arbitrary: kts)
  case Nil
  then show ?case by simp
next
  case (Cons kv kvs)
  obtain k x where kv: "kv = (k, x)" by (cases kv)
  from Cons show ?case using assms unfolding kv by (auto split: option.splits)
qed

lemma flattenRecursive_leaves:
  "treeOf n h v = Some t \<Longrightarrow> flattenRecursive n h PosInf v d = Some (leaves t)"
proof (induction n arbitrary: v t d)
  case 0
  then show ?case by simp
next
  case (Suc n)
  show ?case
  proof (cases v)
    case (Prim p)
    with Suc.prems show ?thesis by auto
  next
    case (Ref a)
    with Suc.prems obtain c where c: "cellAt h a = Some c"
      by (auto split: option.splits)
    show ?thesis
    proof (cases c)
      case (Obj kvs)
      with Suc.prems Ref c obtain kts where "entriesOf n h kvs = Some kts" "t = TObj a kts"
        by (auto split: if_splits)
      then show ?thesis using Ref c Obj flattenEach_entries[OF Suc.IH]
        by (simp add: ownProps_def)
    next
      case (DateObj tm kvs)
      with Suc.prems Ref c obtain kts where "entriesOf n h kvs = Some kts" "t = TDate a tm kts"
        by (auto split: if_splits)
      then show ?thesis using Ref c DateObj flattenEach_entries[OF Suc.IH]
        by (simp add: ownProps_def)
    next
      case (Arr xs)
      with Suc.prems Ref c obtain ts where "treesOf n h xs = Some ts" "t = TArr a ts"
        by auto
      then show ?thesis using Ref c Arr flattenEach_trees[OF Suc.IH]
        by simp
    qed
  qed
qed

lemma flattenEach_prims:
  assumes "\<And>v d ys. flattenRecursive n h PosInf v d = Some ys \<Longrightarrow> \<forall>y \<in> set ys. \<exists>p. y = Prim p"
  shows "flattenEach n h PosInf xs d = Some ys \<Longrightarrow> \<forall>y \<in> set ys. \<exists>p. y = Prim p"
proof (induction xs arbitrary: ys)
  case Nil
  then show ?case by simp
next
  case (Cons x xs)
  then show ?case using assms by (fastforce split: option.splits)
qed

lemma flattenRecursive_prims:
  "flattenRecursive n h PosInf v d = Some ys \<Longrightarrow> \<forall>y \<in> set ys. \<exists>p. y = Prim p"
proof (induction n arbitrary: v d ys)
  case 0
  then show ?case by simp
next
  case (Suc n)
  show ?case
  proof (cases v)
    case (Prim p)
    with Suc.prems show ?thesis by auto
  next
    case (Ref a)
    with Suc.prems show ?thesis
      using flattenEach_prims[OF Suc.IH]
      by (auto split: option.splits cell.splits)
  qed
qed

text \<open>
  C10. \<open>flatten(data, 0)\<close> is \<open>flatten(data)\<close>: the depth 0, like every falsy depth, is
  replaced by infinity, so a finite value is flattened down to its leaves, and on a
  container the call never returns the one-element sequence \<open>[data]\<close>.
\<close>

theorem flatten_depth_zero:
  "flatten n h data (Some (Fin 0)) = flatten n h data None
   \<and> (\<not> truthy (Prim (PNum d)) \<longrightarrow> flatten n h data (Some d) = flatten n h data None)
   \<and> (treeOf n h data = Some t \<longrightarrow> flatten n h data (Some (Fin 0)) = Some (leaves t))
   \<and> flatten n h (Ref a) (Some (Fin 0)) \<noteq> Some [Ref a]"
proof -
  have "flatten n h (Ref a) (Some (Fin 0)) \<noteq> Some [Ref a]"
    using flattenRecursive_prims[of n h "Ref a" 0 "[Ref a]"] by (auto simp: flatten_def)
  then show ?thesis
    using flattenRecursive_leaves[of n h data t 0] by (simp add: flatten_def)
qed

theorem flatten_depth_zero_witness:
  "\<not> truthy (Prim (PNum NaN))
   \<and> treeOf 3 [Arr [Prim (PNum (Fin 2))], Arr [Prim (PNum (Fin 1)), Ref 0]] (Ref 1)
       = Some (TArr 1 [TPrim (PNum (Fin 1)), TArr 0 [TPrim (PNum (Fin 2))]])
   \<and> flatten 3 [Arr [Prim (PNum (Fin 2))], Arr [Prim (PNum (Fin 1)), Ref 0]] (Ref 1) (Some NaN)
       = flatten 3 [Arr [Prim (PNum (Fin 2))], Arr [Prim (PNum (Fin 1)), Ref 0]] (Ref 1) None
   \<and> flatten 3 [Arr [Prim (PNum (Fin 2))], Arr [Prim (PNum (Fin 1)), Ref 0]] (Ref 1) (Some (Fin 0))
       = Some [Prim (PNum (Fin 1)), Prim (PNum (Fin 2))]"
proof -
  have t: "treeOf 3 [Arr [Prim (PNum (Fin 2))], Arr [Prim (PNum (Fin 1)), Ref 0]] (Ref 1)
       = Some (TArr 1 [TPrim (PNum (Fin 1)), TArr 0 [TPrim (PNum (Fin 2))]])"
    by (simp add: numeral_3_eq_3 cellAt_def)
  have f: "\<not> truthy (Prim (PNum NaN))" by simp
  note th = flatten_depth_zero[of 3 "[Arr [Prim (PNum (Fin 2))], Arr [Prim (PNum (Fin 1)), Ref 0]]"
      "Ref 1" NaN "TArr 1 [TPrim (PNum (Fin 1)), TArr 0 [TPrim (PNum (Fin 2))]]" 1]
  from th f have c2:
    "flatten 3 [Arr [Prim (PNum (Fin 2))], Arr [Prim (PNum (Fin 1)), Ref 0]] (Ref 1) (Some NaN)
       = flatten 3 [Arr [Prim (PNum (Fin 2))], Arr [Prim (PNum (Fin 1)), Ref 0]] (Ref 1) None"
    by blast
  from th t have c3:
    "flatten 3 [Arr [Prim (PNum (Fin 2))], Arr [Prim (PNum (Fin 1)), Ref 0]] (Ref 1) (Some (Fin 0))
       = Some (leaves (TArr 1 [TPrim (PNum (Fin 1)), TArr 0 [TPrim (PNum (Fin 2))]]))"
    by blast
  from t f c2 c3 show ?thesis by simp
qed

subsection \<open>get\<close>

lemma owns_defined: "owns h v k \<Longrightarrow> v \<noteq> Prim PUndef \<and> v \<noteq> Prim PNull"
  by (auto simp: owns_def)

lemma getProp_owned: "owns h v k \<Longrightarrow> getProp E h v k = Some (Inr (readProp h v k))"
  using owns_defined[of h v k] by (simp add: getProp_def)

lemma getProp_plain:
  "\<not> owns h v k \<Longrightarrow> \<not> inherited E k \<Longrightarrow> v \<noteq> Prim PUndef \<Longrightarrow> v \<noteq> Prim PNull \<Longrightarrow>
   getProp E h v k = Some (Inr (Prim PUndef))"
  by (simp add: getProp_def)

lemma getLoop_undefined: "getLoop E h (Prim PUndef) ks d = Some (Inr d)"
  by (cases ks) simp_all

lemma getLoop_found:
  "resolve h v ks = Some x \<Longrightarrow>
   getLoop E h v ks d = Some (Inr (if x = Prim PUndef then d else x))"
proof (induction ks arbitrary: v)
  case Nil
  then show ?case by auto
next
  case (Cons k ks)
  from Cons.prems have o: "owns h v k" and r: "resolve h (readProp h v k) ks = Some x"
    by (auto split: if_splits)
  from owns_defined[OF o] getProp_owned[OF o] Cons.IH[OF r] show ?case by simp
qed

lemma getLoop_missing:
  "resolve h v ks = None \<Longrightarrow> \<forall>k \<in> set ks. \<not> inherited E k \<Longrightarrow>
   getLoop E h v ks d = Some (Inr d)"
proof (induction ks arbitrary: v)
  case Nil
  then show ?case by simp
next
  case (Cons k ks)
  show ?case
  proof (cases "v = Prim PNull \<or> v = Prim PUndef")
    case True
    then show ?thesis by auto
  next
    case False
    show ?thesis
    proof (cases "owns h v k")
      case True
      with Cons.prems(1) have "resolve h (readProp h v k) ks = None" by simp
      from Cons.IH[OF this] Cons.prems(2) have "getLoop E h (readProp h v k) ks d = Some (Inr d)"
        by simp
      with False getProp_owned[OF True] show ?thesis by simp
    next
      case o: False
      from Cons.prems(2) have "\<not> inherited E k" by simp
      from getProp_plain[OF o this] False have "getProp E h v k = Some (Inr (Prim PUndef))"
        by simp
      with False show ?thesis by (simp add: getLoop_undefined)
    qed
  qed
qed

text \<open>
  A path through a member that \<open>obj\<close> inherits leaves the store: for
  \<open>get({}, 'constructor.name', 0)\<close> the code returns the name of a function of the
  platform, and the model has no result.
\<close>

lemma get_inherited_member:
  "get \<lparr>numberToString = (\<lambda>x. []), objectToString = (\<lambda>h a. []),
         stringToNumber = (\<lambda>s. NaN), toPrimitive = (\<lambda>h a. PUndef),
         inherited = (\<lambda>k. k \<in> set objectPrototype)\<rparr>
     [Obj []] (Ref 0) ''constructor.name'' d = None"
  by (simp add: get_def getProp_def owns_def store_defs objectPrototype_def)

text \<open>
  C8, as the code has it. \<open>get(obj, p, d)\<close> returns \<open>d\<close> when \<open>obj\<close> is not a keyed
  mapping. When every segment of \<open>p\<close> is present, an own property of the value before it,
  the call returns the value stored at \<open>p\<close>, or \<open>d\<close> when that value is undefined. When a
  segment is missing and no segment of \<open>p\<close> names a member of a built-in prototype, the
  call returns \<open>d\<close>. In particular \<open>get({user: {name: 'Sam'}}, 'user.age', 0)\<close> is 0, \<open>age\<close>
  being no such name.
\<close>

theorem get_returns_value_or_default:
  "(\<not> isObject h obj \<longrightarrow> get E h obj path d = Some (Inr d))
   \<and> (isObject h obj \<and> resolve h obj (splitPath path) = Some x \<longrightarrow>
        get E h obj path d = Some (Inr (if x = Prim PUndef then d else x)))
   \<and> (isObject h obj \<and> resolve h obj (splitPath path) = None
        \<and> (\<forall>k \<in> set (splitPath path). \<not> inherited E k) \<longrightarrow>
        get E h obj path d = Some (Inr d))
   \<and> (\<not> inherited E ''age'' \<longrightarrow>
        get E [Obj [(''name'', Prim (PStr ''Sam''))], Obj [(''user'', Ref 0)]] (Ref 1) ''user.age''
          (Prim (PNum (Fin 0))) = Some (Inr (Prim (PNum (Fin 0)))))"
proof (intro conjI impI)
  assume "\<not> isObject h obj"
  then show "get E h obj path d = Some (Inr d)" by (simp add: get_def)
next
  assume "isObject h obj \<and> resolve h obj (splitPath path) = Some x"
  then show "get E h obj path d = Some (Inr (if x = Prim PUndef then d else x))"
    using getLoop_found[of h obj "splitPath path" x E d] by (simp add: get_def)
next
  assume "isObject h obj \<and> resolve h obj (splitPath path) = None
        \<and> (\<forall>k \<in> set (splitPath path). \<not> inherited E k)"
  then show "get E h obj path d = Some (Inr d)"
    using getLoop_missing[of h obj "splitPath path" E d] by (simp add: get_def)
next
  assume "\<not> inherited E ''age''"
  then show "get E [Obj [(''name'', Prim (PStr ''Sam''))], Obj [(''user'', Ref 0)]] (Ref 1) ''user.age''
          (Prim (PNum (Fin 0))) = Some (Inr (Prim (PNum (Fin 0))))"
    by (simp add: get_def getProp_def owns_def store_defs)
qed

text \<open>
  C8 as stated fails where every segment is present and the stored value is undefined:
  \<open>get({a: undefined}, 'a', 0)\<close> is 0, not the stored value.
\<close>

theorem get_stored_undefined_counterexample:
  "resolve [Obj [(''a'', Prim PUndef)]] (Ref 0) (splitPath ''a'') = Some (Prim PUndef)
   \<and> get \<lparr>numberToString = (\<lambda>x. []), objectToString = (\<lambda>h a. []),
           stringToNumber = (\<lambda>s. NaN), toPrimitive = (\<lambda>h a. PUndef),
           inherited = (\<lambda>k. k \<in> set objectPrototype)\<rparr>
       [Obj [(''a'', Prim PUndef)]] (Ref 0) ''a'' (Prim (PNum (Fin 0)))
     = Some (Inr (Prim (PNum (Fin 0))))"
  by (simp add: get_def getProp_def owns_def store_defs)

theorem get_returns_value_or_default_witness:
  "isObject [Obj [(''name'', Prim (PStr ''Sam''))], Obj [(''user'', Ref 0)]] (Ref 1)
   \<and> resolve [Obj [(''name'', Prim (PStr ''Sam''))], Obj [(''user'', Ref 0)]] (Ref 1)
         (splitPath ''user.name'') = Some (Prim (PStr ''Sam''))
   \<and> get \<lparr>numberToString = (\<lambda>x. []), objectToString = (\<lambda>h a. []),
           stringToNumber = (\<lambda>s. NaN), toPrimitive = (\<lambda>h a. PUndef),
           inherited = (\<lambda>k. k \<in> set objectPrototype)\<rparr>
         [Obj [(''name'', Prim (PStr ''Sam''))], Obj [(''user'', Ref 0)]] (Ref 1) ''user.name''
         (Prim (PNum (Fin 0))) = Some (Inr (Prim (PStr ''Sam'')))
   \<and> resolve [Obj [(''name'', Prim (PStr ''Sam''))], Obj [(''user'', Ref 0)]] (Ref 1)
         (splitPath ''user.age'') = None
   \<and> \<not> inherited \<lparr>numberToString = (\<lambda>x. []), objectToString = (\<lambda>h a. []),
           stringToNumber = (\<lambda>s. NaN), toPrimitive = (\<lambda>h a. PUndef),
           inherited = (\<lambda>k. k \<in> set objectPrototype)\<rparr> ''age''
   \<and> get \<lparr>numberToString = (\<lambda>x. []), objectToString = (\<lambda>h a. []),
           stringToNumber = (\<lambda>s. NaN), toPrimitive = (\<lambda>h a. PUndef),
           inherited = (\<lambda>k. k \<in> set objectPrototype)\<rparr>
         [Obj [(''name'', Prim (PStr ''Sam''))], Obj [(''user'', Ref 0)]] (Ref 1) ''user.age''
         (Prim (PNum (Fin 0))) = Some (Inr (Prim (PNum (Fin 0))))
   \<and> get \<lparr>numberToString = (\<lambda>x. []), objectToString = (\<lambda>h a. []),
           stringToNumber = (\<lambda>s. NaN), toPrimitive = (\<lambda>h a. PUndef),
           inherited = (\<lambda>k. k \<in> set objectPrototype)\<rparr>
         [] (Prim (PNum (Fin 7))) ''user.age'' (Prim (PNum (Fin 0))) = Some (Inr (Prim (PNum (Fin 0))))"
proof -
  let ?E = "\<lparr>numberToString = (\<lambda>x. []), objectToString = (\<lambda>h a. []),
           stringToNumber = (\<lambda>s. NaN), toPrimitive = (\<lambda>h a. PUndef),
           inherited = (\<lambda>k. k \<in> set objectPrototype)\<rparr>"
  let ?H = "[Obj [(''name'', Prim (PStr ''Sam''))], Obj [(''user'', Ref 0)]]"
  have o: "isObject ?H (Ref 1)" by (simp add: store_defs)
  have r: "resolve ?H (Ref 1) (splitPath ''user.name'') = Some (Prim (PStr ''Sam''))"
    by (simp add: owns_def store_defs)
  have m: "resolve ?H (Ref 1) (splitPath ''user.age'') = None"
    by (simp add: owns_def store_defs)
  have a: "\<not> inherited ?E ''age''" by (simp add: objectPrototype_def)
  have p: "\<forall>k \<in> set (splitPath ''user.age''). \<not> inherited ?E k"
    by (simp add: objectPrototype_def)
  have n: "\<not> isObject [] (Prim (PNum (Fin 7)))" by (simp add: isObject_def)
  have 1: "get ?E ?H (Ref 1) ''user.name'' (Prim (PNum (Fin 0))) = Some (Inr (Prim (PStr ''Sam'')))"
    using o r get_returns_value_or_default[of ?H "Ref 1" ?E "''user.name''" "Prim (PNum (Fin 0))"
        "Prim (PStr ''Sam'')"]
    by simp
  have 2: "get ?E ?H (Ref 1) ''user.age'' (Prim (PNum (Fin 0))) = Some (Inr (Prim (PNum (Fin 0))))"
    using o m p get_returns_value_or_default[of ?H "Ref 1" ?E "''user.age''" "Prim (PNum (Fin 0))"]
    by blast
  have 3: "get ?E [] (Prim (PNum (Fin 7))) ''user.age'' (Prim (PNum (Fin 0)))
      = Some (Inr (Prim (PNum (Fin 0))))"
    using n get_returns_value_or_default[of "[]" "Prim (PNum (Fin 7))" ?E "''user.age''"
        "Prim (PNum (Fin 0))"]
    by blast
  from o r 1 m a 2 3 show ?thesis by blast
qed

subsection \<open>The array-only operations\<close>






text \<open>
  A group key that names a member which \<open>result\<close> inherits finds that member: for
  \<open>groupBy([{t: 'toString'}], 't')\<close> the code calls \<open>push\<close> on a function of the
  platform, and the model has no result.
\<close>

lemma groupBy_inherited_member:
  "groupBy \<lparr>numberToString = (\<lambda>x. []), objectToString = (\<lambda>h a. []),
         stringToNumber = (\<lambda>s. NaN), toPrimitive = (\<lambda>h a. PUndef),
         inherited = (\<lambda>k. k \<in> set objectPrototype)\<rparr>
     [Obj [(''t'', Prim (PStr ''toString''))], Arr [Ref 0]] (Ref 1) (KeyName ''t'') = None"
  by (simp add: groupBy_def getKey_def getProp_def owns_def store_defs pushGroup_def
      toPropertyKey_def objectPrototype_def)




subsection \<open>The store and the trees\<close>

lemma cellAt_prefix:
  "prefix h h' \<Longrightarrow> cellAt h a = Some c \<Longrightarrow> cellAt h' a = Some c"
  by (auto simp: cellAt_def prefix_def nth_append split: if_splits)

lemma cellAt_Some_less: "cellAt h a = Some c \<Longrightarrow> a < length h"
  by (auto simp: cellAt_def split: if_splits)

lemma cellAt_last [simp]: "cellAt (h @ [c]) (length h) = Some c"
  by (simp add: cellAt_def)

text \<open>Entries and trees, position by position.\<close>

lemma treesOf_nth:
  "treesOf n h xs = Some ts \<Longrightarrow>
   length ts = length xs \<and> (\<forall>i < length xs. treeOf n h (xs ! i) = Some (ts ! i))"
proof (induction xs arbitrary: ts)
  case Nil
  then show ?case by simp
next
  case (Cons x xs)
  then show ?case by (auto split: option.splits simp: nth_Cons')
qed

lemma entriesOf_nth:
  "entriesOf n h kvs = Some kts \<Longrightarrow>
   map fst kts = map fst kvs
   \<and> (\<forall>i < length kvs. treeOf n h (snd (kvs ! i)) = Some (snd (kts ! i)))"
proof (induction kvs arbitrary: kts)
  case Nil
  then show ?case by simp
next
  case (Cons kv kvs)
  obtain k x where kv: "kv = (k, x)" by (cases kv)
  from Cons show ?case unfolding kv by (auto split: option.splits simp: nth_Cons')
qed

lemma treesOf_from_nth:
  "length ts = length xs \<Longrightarrow> \<forall>i < length xs. treeOf n h (xs ! i) = Some (ts ! i) \<Longrightarrow>
   treesOf n h xs = Some ts"
proof (induction xs arbitrary: ts)
  case Nil
  then show ?case by simp
next
  case (Cons x xs)
  then obtain t ts' where ts: "ts = t # ts'" by (cases ts) auto
  from Cons.prems(2) have "treeOf n h x = Some t" unfolding ts by auto
  moreover have "\<forall>i < length xs. treeOf n h (xs ! i) = Some (ts' ! i)"
    using Cons.prems(2) unfolding ts by auto
  ultimately show ?case using Cons.IH[of ts'] Cons.prems(1) unfolding ts by simp
qed

lemma entriesOf_from_nth:
  "map fst kts = map fst kvs \<Longrightarrow>
   \<forall>i < length kvs. treeOf n h (snd (kvs ! i)) = Some (snd (kts ! i)) \<Longrightarrow>
   entriesOf n h kvs = Some kts"
proof (induction kvs arbitrary: kts)
  case Nil
  then show ?case by simp
next
  case (Cons kv kvs)
  obtain k x where kv: "kv = (k, x)" by (cases kv)
  from Cons.prems(1) obtain kt kts' where kts: "kts = kt # kts'" by (cases kts) auto
  obtain k' t where kt: "kt = (k', t)" by (cases kt)
  from Cons.prems(1) have k': "k' = k" and m: "map fst kts' = map fst kvs"
    unfolding kts kt kv by auto
  from Cons.prems(2) have "treeOf n h x = Some t" unfolding kts kt kv by auto
  moreover have "\<forall>i < length kvs. treeOf n h (snd (kvs ! i)) = Some (snd (kts' ! i))"
    using Cons.prems(2) unfolding kts by auto
  ultimately show ?case using Cons.IH[OF m] unfolding kts kt kv k' by simp
qed

text \<open>A tree depends on the cells it names only.\<close>

lemma treeOf_cong:
  "treeOf n h v = Some t \<Longrightarrow> (\<forall>a \<in> addrs t. cellAt h' a = cellAt h a) \<Longrightarrow>
   treeOf n h' v = Some t"
proof (induction n arbitrary: v t)
  case 0
  then show ?case by simp
next
  case (Suc n)
  show ?case
  proof (cases v)
    case (Prim p)
    with Suc.prems show ?thesis by simp
  next
    case (Ref a)
    from Suc.prems(1) Ref obtain c where c: "cellAt h a = Some c"
      by (auto split: option.splits)
    show ?thesis
    proof (cases c)
      case (Arr xs)
      from Suc.prems(1) Ref c Arr obtain ts where ts: "treesOf n h xs = Some ts" "t = TArr a ts"
        by auto
      have c': "cellAt h' a = Some (Arr xs)" using Suc.prems(2) ts c Arr by simp
      have "\<forall>i < length xs. treeOf n h' (xs ! i) = Some (ts ! i)"
      proof (intro allI impI)
        fix i assume i: "i < length xs"
        with treesOf_nth[OF ts(1)] have ti: "treeOf n h (xs ! i) = Some (ts ! i)" "i < length ts"
          by auto
        have "addrs (ts ! i) \<subseteq> addrs t" using ti(2) ts(2) by auto
        with Suc.prems(2) have "\<forall>a \<in> addrs (ts ! i). cellAt h' a = cellAt h a" by blast
        with Suc.IH[OF ti(1)] show "treeOf n h' (xs ! i) = Some (ts ! i)" by simp
      qed
      with treesOf_nth[OF ts(1)] have "treesOf n h' xs = Some ts"
        by (intro treesOf_from_nth) auto
      with c' Ref ts(2) show ?thesis by simp
    next
      case (Obj kvs)
      from Suc.prems(1) Ref c Obj obtain kts where
        kts: "entriesOf n h kvs = Some kts" "t = TObj a kts" "distinct (map fst kvs)"
        by (auto split: if_splits)
      have c': "cellAt h' a = Some (Obj kvs)" using Suc.prems(2) kts c Obj by simp
      have len: "length kts = length kvs" using entriesOf_nth[OF kts(1)] by (metis length_map)
      have "\<forall>i < length kvs. treeOf n h' (snd (kvs ! i)) = Some (snd (kts ! i))"
      proof (intro allI impI)
        fix i assume i: "i < length kvs"
        with entriesOf_nth[OF kts(1)] have ti: "treeOf n h (snd (kvs ! i)) = Some (snd (kts ! i))"
          by auto
        have "kts ! i \<in> set kts" using i len by simp
        then have "addrs (snd (kts ! i)) \<subseteq> addrs t" using kts(2) by auto
        with Suc.prems(2) have "\<forall>a \<in> addrs (snd (kts ! i)). cellAt h' a = cellAt h a" by blast
        with Suc.IH[OF ti] show "treeOf n h' (snd (kvs ! i)) = Some (snd (kts ! i))" by simp
      qed
      with entriesOf_nth[OF kts(1)] have "entriesOf n h' kvs = Some kts"
        by (intro entriesOf_from_nth) auto
      with c' Ref kts(2,3) show ?thesis by simp
    next
      case (DateObj tm kvs)
      from Suc.prems(1) Ref c DateObj obtain kts where
        kts: "entriesOf n h kvs = Some kts" "t = TDate a tm kts" "distinct (map fst kvs)"
        by (auto split: if_splits)
      have c': "cellAt h' a = Some (DateObj tm kvs)" using Suc.prems(2) kts c DateObj by simp
      have len: "length kts = length kvs" using entriesOf_nth[OF kts(1)] by (metis length_map)
      have "\<forall>i < length kvs. treeOf n h' (snd (kvs ! i)) = Some (snd (kts ! i))"
      proof (intro allI impI)
        fix i assume i: "i < length kvs"
        with entriesOf_nth[OF kts(1)] have ti: "treeOf n h (snd (kvs ! i)) = Some (snd (kts ! i))"
          by auto
        have "kts ! i \<in> set kts" using i len by simp
        then have "addrs (snd (kts ! i)) \<subseteq> addrs t" using kts(2) by auto
        with Suc.prems(2) have "\<forall>a \<in> addrs (snd (kts ! i)). cellAt h' a = cellAt h a" by blast
        with Suc.IH[OF ti] show "treeOf n h' (snd (kvs ! i)) = Some (snd (kts ! i))" by simp
      qed
      with entriesOf_nth[OF kts(1)] have "entriesOf n h' kvs = Some kts"
        by (intro entriesOf_from_nth) auto
      with c' Ref kts(2,3) show ?thesis by simp
    qed
  qed
qed

text \<open>Every address of a tree is a cell of the store.\<close>

lemma addrs_allocated:
  "treeOf n h v = Some t \<Longrightarrow> a \<in> addrs t \<Longrightarrow> a < length h"
proof (induction n arbitrary: v t)
  case 0
  then show ?case by simp
next
  case (Suc n)
  show ?case
  proof (cases v)
    case (Prim p)
    with Suc.prems show ?thesis by auto
  next
    case (Ref r)
    from Suc.prems(1) Ref obtain c where c: "cellAt h r = Some c"
      by (auto split: option.splits)
    have r: "r < length h" using c by (rule cellAt_Some_less)
    show ?thesis
    proof (cases c)
      case (Arr xs)
      from Suc.prems(1) Ref c Arr obtain ts where ts: "treesOf n h xs = Some ts" "t = TArr r ts"
        by auto
      show ?thesis
      proof (cases "a = r")
        case True with r show ?thesis by simp
      next
        case False
        with Suc.prems(2) ts(2) obtain t' where t': "t' \<in> set ts" "a \<in> addrs t'" by auto
        then obtain i where i: "i < length ts" "ts ! i = t'" by (auto simp: in_set_conv_nth)
        with treesOf_nth[OF ts(1)] have "treeOf n h (xs ! i) = Some t'" by auto
        from Suc.IH[OF this t'(2)] show ?thesis .
      qed
    next
      case (Obj kvs)
      from Suc.prems(1) Ref c Obj obtain kts where
        kts: "entriesOf n h kvs = Some kts" "t = TObj r kts"
        by (auto split: if_splits)
      have len: "length kts = length kvs" using entriesOf_nth[OF kts(1)] by (metis length_map)
      show ?thesis
      proof (cases "a = r")
        case True with r show ?thesis by simp
      next
        case False
        with Suc.prems(2) kts(2) obtain kt where kt: "kt \<in> set kts" "a \<in> addrs (snd kt)" by auto
        then obtain i where i: "i < length kts" "kts ! i = kt" by (auto simp: in_set_conv_nth)
        with entriesOf_nth[OF kts(1)] len have "treeOf n h (snd (kvs ! i)) = Some (snd kt)" by auto
        from Suc.IH[OF this kt(2)] show ?thesis .
      qed
    next
      case (DateObj tm kvs)
      from Suc.prems(1) Ref c DateObj obtain kts where
        kts: "entriesOf n h kvs = Some kts" "t = TDate r tm kts"
        by (auto split: if_splits)
      have len: "length kts = length kvs" using entriesOf_nth[OF kts(1)] by (metis length_map)
      show ?thesis
      proof (cases "a = r")
        case True with r show ?thesis by simp
      next
        case False
        with Suc.prems(2) kts(2) obtain kt where kt: "kt \<in> set kts" "a \<in> addrs (snd kt)" by auto
        then obtain i where i: "i < length kts" "kts ! i = kt" by (auto simp: in_set_conv_nth)
        with entriesOf_nth[OF kts(1)] len have "treeOf n h (snd (kvs ! i)) = Some (snd kt)" by auto
        from Suc.IH[OF this kt(2)] show ?thesis .
      qed
    qed
  qed
qed

lemma treeOf_prefix:
  assumes "treeOf n h v = Some t" and "prefix h h'"
  shows "treeOf n h' v = Some t"
proof (rule treeOf_cong[OF assms(1)])
  show "\<forall>a \<in> addrs t. cellAt h' a = cellAt h a"
  proof
    fix a assume "a \<in> addrs t"
    with addrs_allocated[OF assms(1)] have "a < length h" by simp
    with assms(2) show "cellAt h' a = cellAt h a"
      by (auto simp: cellAt_def prefix_def nth_append)
  qed
qed

lemma treesOf_prefix:
  assumes "treesOf n h xs = Some ts" and "prefix h h'"
  shows "treesOf n h' xs = Some ts"
  using treesOf_nth[OF assms(1)] treeOf_prefix[OF _ assms(2)]
  by (intro treesOf_from_nth) auto

lemma entriesOf_prefix:
  assumes "entriesOf n h kvs = Some kts" and "prefix h h'"
  shows "entriesOf n h' kvs = Some kts"
  using entriesOf_nth[OF assms(1)] treeOf_prefix[OF _ assms(2)]
  by (intro entriesOf_from_nth) auto

text \<open>The children of a reference have trees of their own.\<close>

lemma children_trees:
  assumes "treeOf (Suc n) h (Ref p) = Some t"
  shows "\<forall>x \<in> set (items h (Ref p)). \<exists>u. treeOf n h x = Some u"
    and "\<forall>kx \<in> set (ownProps h (Ref p)). \<exists>u. treeOf n h (snd kx) = Some u"
    and "distinct (map fst (ownProps h (Ref p)))"
proof -
  from assms obtain c where c: "cellAt h p = Some c" by (auto split: option.splits)
  show "\<forall>x \<in> set (items h (Ref p)). \<exists>u. treeOf n h x = Some u"
  proof (cases c)
    case (Arr xs)
    with assms c obtain ts where ts: "treesOf n h xs = Some ts" by auto
    show ?thesis
    proof
      fix x assume "x \<in> set (items h (Ref p))"
      then obtain i where "i < length xs" "xs ! i = x"
        using c Arr by (auto simp: items_def in_set_conv_nth)
      with treesOf_nth[OF ts] show "\<exists>u. treeOf n h x = Some u" by auto
    qed
  qed (use c in \<open>simp_all add: items_def\<close>)
  have "(\<forall>kx \<in> set (ownProps h (Ref p)). \<exists>u. treeOf n h (snd kx) = Some u)
      \<and> distinct (map fst (ownProps h (Ref p)))"
  proof (cases c)
    case (Arr xs)
    then show ?thesis using c by (simp add: ownProps_def)
  next
    case (Obj kvs)
    with assms c obtain kts where kts: "entriesOf n h kvs = Some kts" and d: "distinct (map fst kvs)"
      by (auto split: if_splits)
    have "\<forall>kx \<in> set kvs. \<exists>u. treeOf n h (snd kx) = Some u"
    proof
      fix kx assume "kx \<in> set kvs"
      then obtain i where "i < length kvs" "kvs ! i = kx" by (auto simp: in_set_conv_nth)
      with entriesOf_nth[OF kts] show "\<exists>u. treeOf n h (snd kx) = Some u" by auto
    qed
    with d show ?thesis using c Obj by (simp add: ownProps_def)
  next
    case (DateObj tm kvs)
    with assms c obtain kts where kts: "entriesOf n h kvs = Some kts" and d: "distinct (map fst kvs)"
      by (auto split: if_splits)
    have "\<forall>kx \<in> set kvs. \<exists>u. treeOf n h (snd kx) = Some u"
    proof
      fix kx assume "kx \<in> set kvs"
      then obtain i where "i < length kvs" "kvs ! i = kx" by (auto simp: in_set_conv_nth)
      with entriesOf_nth[OF kts] show "\<exists>u. treeOf n h (snd kx) = Some u" by auto
    qed
    with d show ?thesis using c DateObj by (simp add: ownProps_def)
  qed
  then show "\<forall>kx \<in> set (ownProps h (Ref p)). \<exists>u. treeOf n h (snd kx) = Some u"
    and "distinct (map fst (ownProps h (Ref p)))" by auto
qed

subsection \<open>deepClone\<close>

lemma cloneItems_spec:
  assumes step: "\<And>h v t. treeOf n h v = Some t \<Longrightarrow>
      \<exists>h' v' t'. deepClone n h v = Some (h', v') \<and> prefix h h' \<and> treeOf n h' v' = Some t'
        \<and> shapeOf t' = shapeOf t \<and> addrs t' \<subseteq> {length h ..< length h'}"
  shows "treesOf n h xs = Some ts \<Longrightarrow>
      \<exists>h' ys ts'. cloneItems n h xs = Some (h', ys) \<and> prefix h h' \<and> treesOf n h' ys = Some ts'
        \<and> map shapeOf ts' = map shapeOf ts \<and> (\<forall>t' \<in> set ts'. addrs t' \<subseteq> {length h ..< length h'})"
proof (induction xs arbitrary: h ts)
  case Nil
  then show ?case by auto
next
  case (Cons x xs)
  from Cons.prems obtain t ts0 where
    t: "treeOf n h x = Some t" and ts0: "treesOf n h xs = Some ts0" and ts: "ts = t # ts0"
    by (auto split: option.splits)
  from step[OF t] obtain h1 y t' where
    c1: "deepClone n h x = Some (h1, y)" and p1: "prefix h h1" and t1: "treeOf n h1 y = Some t'"
    and s1: "shapeOf t' = shapeOf t" and a1: "addrs t' \<subseteq> {length h ..< length h1}"
    by blast
  from Cons.IH[OF treesOf_prefix[OF ts0 p1]] obtain h2 ys ts' where
    c2: "cloneItems n h1 xs = Some (h2, ys)" and p2: "prefix h1 h2"
    and t2: "treesOf n h2 ys = Some ts'" and s2: "map shapeOf ts' = map shapeOf ts0"
    and a2: "\<forall>t' \<in> set ts'. addrs t' \<subseteq> {length h1 ..< length h2}"
    by blast
  have l1: "length h \<le> length h1" and l2: "length h1 \<le> length h2"
    using p1 p2 by (auto dest: prefix_length_le)
  have "cloneItems n h (x # xs) = Some (h2, y # ys)" using c1 c2 by simp
  moreover have "prefix h h2" using p1 p2 by (rule prefix_order.trans)
  moreover have "treesOf n h2 (y # ys) = Some (t' # ts')"
    using treeOf_prefix[OF t1 p2] t2 by simp
  moreover have "map shapeOf (t' # ts') = map shapeOf ts" using s1 s2 ts by simp
  moreover have "\<forall>u \<in> set (t' # ts'). addrs u \<subseteq> {length h ..< length h2}"
    using a1 a2 l1 l2 by fastforce
  ultimately show ?case by blast
qed

lemma cloneProps_spec:
  assumes step: "\<And>h v t. treeOf n h v = Some t \<Longrightarrow>
      \<exists>h' v' t'. deepClone n h v = Some (h', v') \<and> prefix h h' \<and> treeOf n h' v' = Some t'
        \<and> shapeOf t' = shapeOf t \<and> addrs t' \<subseteq> {length h ..< length h'}"
  shows "entriesOf n h kvs = Some kts \<Longrightarrow>
      \<exists>h' kvs' kts'. cloneProps n h kvs = Some (h', kvs') \<and> prefix h h'
        \<and> entriesOf n h' kvs' = Some kts' \<and> map fst kvs' = map fst kvs
        \<and> map (\<lambda>kt. (fst kt, shapeOf (snd kt))) kts' = map (\<lambda>kt. (fst kt, shapeOf (snd kt))) kts
        \<and> (\<forall>kt \<in> set kts'. addrs (snd kt) \<subseteq> {length h ..< length h'})"
proof (induction kvs arbitrary: h kts)
  case Nil
  then show ?case by auto
next
  case (Cons kv kvs)
  obtain k x where kv: "kv = (k, x)" by (cases kv)
  from Cons.prems obtain t kts0 where
    t: "treeOf n h x = Some t" and ts0: "entriesOf n h kvs = Some kts0" and ts: "kts = (k, t) # kts0"
    unfolding kv by (auto split: option.splits)
  from step[OF t] obtain h1 y t' where
    c1: "deepClone n h x = Some (h1, y)" and p1: "prefix h h1" and t1: "treeOf n h1 y = Some t'"
    and s1: "shapeOf t' = shapeOf t" and a1: "addrs t' \<subseteq> {length h ..< length h1}"
    by blast
  from Cons.IH[OF entriesOf_prefix[OF ts0 p1]] obtain h2 kvs' kts' where
    c2: "cloneProps n h1 kvs = Some (h2, kvs')" and p2: "prefix h1 h2"
    and t2: "entriesOf n h2 kvs' = Some kts'" and f2: "map fst kvs' = map fst kvs"
    and s2: "map (\<lambda>kt. (fst kt, shapeOf (snd kt))) kts' = map (\<lambda>kt. (fst kt, shapeOf (snd kt))) kts0"
    and a2: "\<forall>kt \<in> set kts'. addrs (snd kt) \<subseteq> {length h1 ..< length h2}"
    by blast
  have l1: "length h \<le> length h1" and l2: "length h1 \<le> length h2"
    using p1 p2 by (auto dest: prefix_length_le)
  have "cloneProps n h (kv # kvs) = Some (h2, (k, y) # kvs')" using c1 c2 unfolding kv by simp
  moreover have "prefix h h2" using p1 p2 by (rule prefix_order.trans)
  moreover have "entriesOf n h2 ((k, y) # kvs') = Some ((k, t') # kts')"
    using treeOf_prefix[OF t1 p2] t2 by simp
  moreover have "map fst ((k, y) # kvs') = map fst (kv # kvs)" using f2 kv by simp
  moreover have "map (\<lambda>kt. (fst kt, shapeOf (snd kt))) ((k, t') # kts')
      = map (\<lambda>kt. (fst kt, shapeOf (snd kt))) kts" using s1 s2 ts by simp
  moreover have "\<forall>kt \<in> set ((k, t') # kts'). addrs (snd kt) \<subseteq> {length h ..< length h2}"
    using a1 a2 l1 l2 by fastforce
  ultimately show ?case by blast
qed

lemma deepClone_spec:
  "treeOf n h v = Some t \<Longrightarrow>
      \<exists>h' v' t'. deepClone n h v = Some (h', v') \<and> prefix h h' \<and> treeOf n h' v' = Some t'
        \<and> shapeOf t' = shapeOf t \<and> addrs t' \<subseteq> {length h ..< length h'}"
proof (induction n arbitrary: h v t)
  case 0
  then show ?case by simp
next
  case (Suc n)
  show ?case
  proof (cases v)
    case (Prim p)
    with Suc.prems show ?thesis by auto
  next
    case (Ref a)
    from Suc.prems Ref obtain c where c: "cellAt h a = Some c"
      by (auto split: option.splits)
    show ?thesis
    proof (cases c)
      case (DateObj tm kvs)
      from Suc.prems Ref c DateObj obtain kts where t: "t = TDate a tm kts"
        by (auto split: if_splits)
      have "deepClone (Suc n) h v = Some (h @ [DateObj tm []], Ref (length h))"
        using Ref c DateObj by simp
      moreover have "treeOf (Suc n) (h @ [DateObj tm []]) (Ref (length h)) = Some (TDate (length h) tm [])"
        by simp
      ultimately show ?thesis using t by (auto simp: prefix_def)
    next
      case (Arr xs)
      from Suc.prems Ref c Arr obtain ts where ts: "treesOf n h xs = Some ts" and t: "t = TArr a ts"
        by auto
      from cloneItems_spec[OF Suc.IH ts] obtain h1 ys ts' where
        c1: "cloneItems n h xs = Some (h1, ys)" and p1: "prefix h h1"
        and t1: "treesOf n h1 ys = Some ts'" and s1: "map shapeOf ts' = map shapeOf ts"
        and a1: "\<forall>t' \<in> set ts'. addrs t' \<subseteq> {length h ..< length h1}"
        by blast
      let ?h' = "h1 @ [Arr ys]"
      have pp: "prefix h1 ?h'" by simp
      have "deepClone (Suc n) h v = Some (?h', Ref (length h1))" using Ref c Arr c1 by simp
      moreover have "prefix h ?h'" using p1 pp by (rule prefix_order.trans)
      moreover have "treeOf (Suc n) ?h' (Ref (length h1)) = Some (TArr (length h1) ts')"
        using treesOf_prefix[OF t1 pp] by simp
      moreover have "shapeOf (TArr (length h1) ts') = shapeOf t" using s1 t by simp
      moreover have "addrs (TArr (length h1) ts') \<subseteq> {length h ..< length ?h'}"
        using a1 prefix_length_le[OF p1] by fastforce
      ultimately show ?thesis by blast
    next
      case (Obj kvs)
      from Suc.prems Ref c Obj obtain kts where
        ts: "entriesOf n h kvs = Some kts" and t: "t = TObj a kts" and d: "distinct (map fst kvs)"
        by (auto split: if_splits)
      from cloneProps_spec[OF Suc.IH ts] obtain h1 kvs' kts' where
        c1: "cloneProps n h kvs = Some (h1, kvs')" and p1: "prefix h h1"
        and t1: "entriesOf n h1 kvs' = Some kts'" and f1: "map fst kvs' = map fst kvs"
        and s1: "map (\<lambda>kt. (fst kt, shapeOf (snd kt))) kts' = map (\<lambda>kt. (fst kt, shapeOf (snd kt))) kts"
        and a1: "\<forall>kt \<in> set kts'. addrs (snd kt) \<subseteq> {length h ..< length h1}"
        by blast
      let ?h' = "h1 @ [Obj kvs']"
      have pp: "prefix h1 ?h'" by simp
      have "deepClone (Suc n) h v = Some (?h', Ref (length h1))" using Ref c Obj c1 by simp
      moreover have "prefix h ?h'" using p1 pp by (rule prefix_order.trans)
      moreover have "treeOf (Suc n) ?h' (Ref (length h1)) = Some (TObj (length h1) kts')"
        using entriesOf_prefix[OF t1 pp] d f1 by simp
      moreover have "shapeOf (TObj (length h1) kts') = shapeOf t" using s1 t by simp
      moreover have "addrs (TObj (length h1) kts') \<subseteq> {length h ..< length ?h'}"
        using a1 prefix_length_le[OF p1] by fastforce
      ultimately show ?thesis by blast
    qed
  qed
qed

subsection \<open>deepClone shares nothing with its argument\<close>

text \<open>
  C9. For every finite value \<open>v\<close>, \<open>deepClone(v)\<close> returns a value of the same shape
  whose cells are all new: the store as it was is a prefix of the store after the call,
  no address of the clone is an address of \<open>v\<close>, and overwriting any cell of the clone
  leaves the tree of \<open>v\<close> as it is. A date is cloned as a new date cell with the same
  time.
\<close>

theorem deepClone_shares_nothing:
  "(treeOf n h v = Some t \<longrightarrow>
      (\<exists>h' v' t'. deepClone n h v = Some (h', v')
         \<and> prefix h h'
         \<and> treeOf n h' v = Some t
         \<and> treeOf n h' v' = Some t'
         \<and> shapeOf t' = shapeOf t
         \<and> (\<forall>a \<in> addrs t'. length h \<le> a \<and> a \<notin> addrs t)
         \<and> (\<forall>a \<in> addrs t'. \<forall>c. treeOf n (h'[a := c]) v = Some t)))
   \<and> (cellAt h a = Some (DateObj tm kvs) \<longrightarrow>
        deepClone (Suc n) h (Ref a) = Some (h @ [DateObj tm []], Ref (length h)))"
proof (intro conjI impI)
  assume t: "treeOf n h v = Some t"
  from deepClone_spec[OF t] obtain h' v' t' where
    c: "deepClone n h v = Some (h', v')" and p: "prefix h h'"
    and t': "treeOf n h' v' = Some t'" and s: "shapeOf t' = shapeOf t"
    and a: "addrs t' \<subseteq> {length h ..< length h'}"
    by blast
  have tv: "treeOf n h' v = Some t" using t p by (rule treeOf_prefix)
  have old: "\<forall>b \<in> addrs t. b < length h" using addrs_allocated[OF t] by blast
  have fresh: "\<forall>a \<in> addrs t'. length h \<le> a \<and> a \<notin> addrs t"
    using a old by fastforce
  have mut: "\<forall>a \<in> addrs t'. \<forall>c. treeOf n (h'[a := c]) v = Some t"
  proof (intro ballI allI)
    fix a c assume "a \<in> addrs t'"
    with fresh have "a \<notin> addrs t" by blast
    then have "\<forall>b \<in> addrs t. b \<noteq> a" by blast
    then have "\<forall>b \<in> addrs t. cellAt (h'[a := c]) b = cellAt h' b"
      by (auto simp: cellAt_def nth_list_update_neq)
    with tv show "treeOf n (h'[a := c]) v = Some t" by (rule treeOf_cong)
  qed
  from c p tv t' s fresh mut
  show "\<exists>h' v' t'. deepClone n h v = Some (h', v')
         \<and> prefix h h'
         \<and> treeOf n h' v = Some t
         \<and> treeOf n h' v' = Some t'
         \<and> shapeOf t' = shapeOf t
         \<and> (\<forall>a \<in> addrs t'. length h \<le> a \<and> a \<notin> addrs t)
         \<and> (\<forall>a \<in> addrs t'. \<forall>c. treeOf n (h'[a := c]) v = Some t)"
    by blast
next
  assume "cellAt h a = Some (DateObj tm kvs)"
  then show "deepClone (Suc n) h (Ref a) = Some (h @ [DateObj tm []], Ref (length h))"
    by simp
qed

theorem deepClone_shares_nothing_witness:
  "treeOf 3 [DateObj (Fin 86400000) [], Obj [(''when'', Ref 0), (''n'', Prim (PNum NaN))]] (Ref 1)
     = Some (TObj 1 [(''when'', TDate 0 (Fin 86400000) []), (''n'', TPrim (PNum NaN))])
   \<and> cellAt [DateObj (Fin 86400000) [], Obj [(''when'', Ref 0), (''n'', Prim (PNum NaN))]] 0
       = Some (DateObj (Fin 86400000) [])
   \<and> deepClone 3 [DateObj (Fin 86400000) [], Obj [(''when'', Ref 0), (''n'', Prim (PNum NaN))]] (Ref 1)
       = Some ([DateObj (Fin 86400000) [], Obj [(''when'', Ref 0), (''n'', Prim (PNum NaN))],
                DateObj (Fin 86400000) [], Obj [(''when'', Ref 2), (''n'', Prim (PNum NaN))]], Ref 3)
   \<and> (\<exists>h' v' t'. deepClone 3 [DateObj (Fin 86400000) [], Obj [(''when'', Ref 0), (''n'', Prim (PNum NaN))]] (Ref 1)
          = Some (h', v')
        \<and> treeOf 3 h' v' = Some t'
        \<and> shapeOf t' = shapeOf (TObj 1 [(''when'', TDate 0 (Fin 86400000) []), (''n'', TPrim (PNum NaN))])
        \<and> (\<forall>a \<in> addrs t'. \<forall>c. treeOf 3 (h'[a := c]) (Ref 1)
              = Some (TObj 1 [(''when'', TDate 0 (Fin 86400000) []), (''n'', TPrim (PNum NaN))])))"
proof -
  let ?H = "[DateObj (Fin 86400000) [], Obj [(''when'', Ref 0), (''n'', Prim (PNum NaN))]]"
  let ?T = "TObj 1 [(''when'', TDate 0 (Fin 86400000) []), (''n'', TPrim (PNum NaN))]"
  have t: "treeOf 3 ?H (Ref 1) = Some ?T"
    by (simp add: numeral_3_eq_3 cellAt_def)
  have d: "cellAt ?H 0 = Some (DateObj (Fin 86400000) [])"
    by (simp add: cellAt_def)
  have e: "deepClone 3 ?H (Ref 1) = Some (?H @ [DateObj (Fin 86400000) [],
      Obj [(''when'', Ref 2), (''n'', Prim (PNum NaN))]], Ref 3)"
    by (simp add: numeral_3_eq_3 cellAt_def)
  from t deepClone_shares_nothing[of 3 ?H "Ref 1" ?T 0 "Fin 86400000" "[]"]
  have "\<exists>h' v' t'. deepClone 3 ?H (Ref 1) = Some (h', v')
        \<and> treeOf 3 h' v' = Some t' \<and> shapeOf t' = shapeOf ?T
        \<and> (\<forall>a \<in> addrs t'. \<forall>c. treeOf 3 (h'[a := c]) (Ref 1) = Some ?T)"
    by blast
  with t d e show ?thesis by simp
qed

subsection \<open>isEqual on values of one shape\<close>









text \<open>The own properties of an object or a date, and the call \<open>b.hasOwnProperty(k)\<close> on
  it: the built-in method runs unless \<open>b\<close> owns a property of that name.\<close>

lemma object_props:
  assumes "isObject h b"
  shows "readProp h b k = getOwn (ownProps h b) k"
    and "owns h b k = (k \<in> fst ` set (ownProps h b))"
  using assms
  by (auto simp: isObject_def readProp_def owns_def ownProps_def split: val.splits option.splits cell.splits)


lemma hasOwn_shadowed:
  assumes "isObject h b" and "''hasOwnProperty'' \<in> fst ` set (ownProps h b)"
  shows "hasOwn h b k = Inl TypeError"
  using assms object_props(2)[OF assms(1)] by (simp add: hasOwn_def)






subsection \<open>deepClone: equal to its argument\<close>




subsection \<open>isEqual: reflexive, symmetric, structural\<close>






















subsection \<open>deepMerge writes to the clone only\<close>

text \<open>\<open>deepClone\<close> only extends the store, and a reference it returns is new.\<close>

lemma cloneItems_extends:
  assumes "\<And>h v h' v'. deepClone n h v = Some (h', v') \<Longrightarrow> prefix h h'"
  shows "cloneItems n h xs = Some (h', ys) \<Longrightarrow> prefix h h'"
proof (induction xs arbitrary: h ys)
  case Nil
  then show ?case by simp
next
  case (Cons x xs)
  from Cons.prems obtain h1 y ys' where
    1: "deepClone n h x = Some (h1, y)" and 2: "cloneItems n h1 xs = Some (h', ys')"
    by (auto split: option.splits)
  from assms[OF 1] Cons.IH[OF 2] show ?case by (rule prefix_order.trans)
qed

lemma cloneProps_extends:
  assumes "\<And>h v h' v'. deepClone n h v = Some (h', v') \<Longrightarrow> prefix h h'"
  shows "cloneProps n h kvs = Some (h', kvs') \<Longrightarrow> prefix h h'"
proof (induction kvs arbitrary: h kvs')
  case Nil
  then show ?case by simp
next
  case (Cons kv kvs)
  obtain k x where kv: "kv = (k, x)" by (cases kv)
  from Cons.prems obtain h1 y ys' where
    1: "deepClone n h x = Some (h1, y)" and 2: "cloneProps n h1 kvs = Some (h', ys')"
    unfolding kv by (auto split: option.splits)
  from assms[OF 1] Cons.IH[OF 2] show ?case by (rule prefix_order.trans)
qed

lemma deepClone_extends:
  "deepClone n h v = Some (h', v') \<Longrightarrow> prefix h h'"
proof (induction n arbitrary: h v h' v')
  case 0
  then show ?case by simp
next
  case (Suc n)
  show ?case
  proof (cases v)
    case (Prim p)
    with Suc.prems show ?thesis by simp
  next
    case (Ref a)
    from Suc.prems Ref obtain c where c: "cellAt h a = Some c" by (auto split: option.splits)
    show ?thesis
    proof (cases c)
      case (DateObj tm kvs)
      with Suc.prems Ref c show ?thesis by auto
    next
      case (Arr xs)
      with Suc.prems Ref c obtain h1 ys where
        1: "cloneItems n h xs = Some (h1, ys)" and 2: "h' = h1 @ [Arr ys]"
        by (auto split: option.splits)
      from cloneItems_extends[OF Suc.IH 1] have "prefix h h1" .
      then show ?thesis unfolding 2 by (rule prefix_order.trans) simp
    next
      case (Obj kvs)
      with Suc.prems Ref c obtain h1 ys where
        1: "cloneProps n h kvs = Some (h1, ys)" and 2: "h' = h1 @ [Obj ys]"
        by (auto split: option.splits)
      from cloneProps_extends[OF Suc.IH 1] have "prefix h h1" .
      then show ?thesis unfolding 2 by (rule prefix_order.trans) simp
    qed
  qed
qed

lemma deepClone_Ref_new:
  assumes "deepClone n h v = Some (h', Ref r)"
  shows "length h \<le> r \<and> r < length h'"
proof (cases n)
  case 0
  with assms show ?thesis by simp
next
  case (Suc m)
  show ?thesis
  proof (cases v)
    case (Prim p)
    with assms Suc show ?thesis by simp
  next
    case (Ref a)
    from assms Suc Ref obtain c where c: "cellAt h a = Some c" by (auto split: option.splits)
    show ?thesis
    proof (cases c)
      case (DateObj tm kvs)
      with assms Suc Ref c show ?thesis by auto
    next
      case (Arr xs)
      with assms Suc Ref c obtain h1 ys where
        1: "cloneItems m h xs = Some (h1, ys)" and 2: "h' = h1 @ [Arr ys]" "r = length h1"
        by (auto split: option.splits)
      from cloneItems_extends[OF deepClone_extends 1] have "length h \<le> length h1"
        by (rule prefix_length_le)
      with 2 show ?thesis by simp
    next
      case (Obj kvs)
      with assms Suc Ref c obtain h1 ys where
        1: "cloneProps m h kvs = Some (h1, ys)" and 2: "h' = h1 @ [Obj ys]" "r = length h1"
        by (auto split: option.splits)
      from cloneProps_extends[OF deepClone_extends 1] have "length h \<le> length h1"
        by (rule prefix_length_le)
      with 2 show ?thesis by simp
    qed
  qed
qed

text \<open>The assignments to \<open>result\<close> leave the cells below it alone.\<close>

lemma setOwn_length [simp]: "length (setOwn h r k v) = length h"
  by (simp add: setOwn_def split: option.splits cell.splits)

lemma setOwn_take: "L \<le> r \<Longrightarrow> take L (setOwn h r k v) = take L h"
  by (simp add: setOwn_def take_update_cancel split: option.splits cell.splits)

lemma prefix_take: "prefix h h' \<Longrightarrow> L \<le> length h \<Longrightarrow> take L h' = take L h"
  by (auto simp: prefix_def)

lemma take_prefix: "length h \<le> length h' \<Longrightarrow> take (length h) h' = h \<Longrightarrow> prefix h h'"
  by (metis take_is_prefix)

lemma mergeKeys_frame:
  assumes step: "\<And>h t s h' res. deepMerge n h t s = Some (h', res) \<Longrightarrow> prefix h h'"
  shows "mergeKeys n h target r ps = Some h' \<Longrightarrow> L \<le> r \<Longrightarrow> L \<le> length h \<Longrightarrow>
         length h \<le> length h' \<and> take L h' = take L h"
proof (induction ps arbitrary: h)
  case Nil
  then show ?case by simp
next
  case (Cons kv ps)
  obtain key sv where kv: "kv = (key, sv)" by (cases kv)
  show ?case
  proof (cases "isObject h sv")
    case False
    with Cons.prems(1) have m: "mergeKeys n (setOwn h r key sv) target r ps = Some h'"
      unfolding kv by simp
    from Cons.IH[OF m Cons.prems(2)] Cons.prems(3)
    have "length h \<le> length h' \<and> take L h' = take L (setOwn h r key sv)" by simp
    then show ?thesis using setOwn_take[OF Cons.prems(2)] by simp
  next
    case True
    define h1 where "h1 = (if \<not> truthy (readProp h target key)
                      then setOwn (h @ [Obj []]) r key (Ref (length h)) else h)"
    have l1: "length h \<le> length h1" by (simp add: h1_def)
    have t1: "take L h1 = take L h"
      using Cons.prems(2,3) by (simp add: h1_def setOwn_take)
    from Cons.prems(1) True obtain h2 m where
      d: "deepMerge n h1 (readProp h1 target key) sv = Some (h2, m)"
      and m: "mergeKeys n (setOwn h2 r key m) target r ps = Some h'"
      unfolding kv h1_def by (auto simp: Let_def split: option.splits)
    from step[OF d] have p12: "prefix h1 h2" .
    have l2: "length h1 \<le> length h2" using p12 by (rule prefix_length_le)
    have t2: "take L h2 = take L h1" using p12 Cons.prems(3) l1 by (intro prefix_take) auto
    have "L \<le> length (setOwn h2 r key m)" using Cons.prems(3) l1 l2 by simp
    from Cons.IH[OF m Cons.prems(2) this]
    have "length h2 \<le> length h' \<and> take L h' = take L (setOwn h2 r key m)" by simp
    then show ?thesis using setOwn_take[OF Cons.prems(2)] t1 t2 l1 l2 by simp
  qed
qed

lemma deepMerge_extends:
  "deepMerge n h target source = Some (h', res) \<Longrightarrow> prefix h h'"
proof (induction n arbitrary: h target source h' res)
  case 0
  then show ?case by simp
next
  case (Suc n)
  from Suc.prems obtain h1 result where
    c: "deepClone (Suc n) h target = Some (h1, result)"
    by (auto split: option.splits)
  have p1: "prefix h h1" using c by (rule deepClone_extends)
  show ?case
  proof (cases "isObject h1 target \<and> isObject h1 source")
    case False
    with Suc.prems c have "h' = h1" by auto
    with p1 show ?thesis by simp
  next
    case True
    show ?thesis
    proof (cases result)
      case (Prim p)
      with Suc.prems c True have "h' = h1" by auto
      with p1 show ?thesis by simp
    next
      case (Ref r)
      with Suc.prems c True have m: "mergeKeys n h1 target r (ownProps h1 source) = Some h'"
        by (auto split: option.splits)
      from deepClone_Ref_new[OF c[unfolded Ref]] have r: "length h \<le> r" by simp
      have l: "length h \<le> length h1" using p1 by (rule prefix_length_le)
      from mergeKeys_frame[OF Suc.IH m r l]
      have "length h1 \<le> length h'" and "take (length h) h' = take (length h) h1" by auto
      moreover have "take (length h) h1 = h" using p1 by (auto simp: prefix_def)
      ultimately show ?thesis using l by (intro take_prefix) auto
    qed
  qed
qed

lemma cellAt_prefix_eq:
  "prefix h g \<Longrightarrow> a < length h \<Longrightarrow> cellAt g a = cellAt h a"
  by (auto simp: cellAt_def prefix_def nth_append)

lemma isObject_cell: "cellAt g a = cellAt h a \<Longrightarrow> isObject g (Ref a) = isObject h (Ref a)"
  by (simp add: isObject_def)

lemma readProp_cell: "cellAt g a = cellAt h a \<Longrightarrow> readProp g (Ref a) k = readProp h (Ref a) k"
  by (simp add: readProp_def)

lemma ownProps_cell: "cellAt g a = cellAt h a \<Longrightarrow> ownProps g (Ref a) = ownProps h (Ref a)"
  by (simp add: ownProps_def)

lemma isObject_Ref: "isObject h v \<Longrightarrow> \<exists>a. v = Ref a \<and> a < length h"
  by (auto simp: isObject_def cellAt_def split: val.splits option.splits if_splits)

lemma setOwn_prefix:
  assumes "prefix h0 g" and "length h0 \<le> r"
  shows "prefix h0 (setOwn g r k v)"
proof -
  have l: "length h0 \<le> length g" using assms(1) by (rule prefix_length_le)
  have "take (length h0) (setOwn g r k v) = take (length h0) g" using assms(2) by (rule setOwn_take)
  also have "\<dots> = h0" using assms(1) by (auto simp: prefix_def)
  finally show ?thesis using l by (intro take_prefix) auto
qed

lemma treeOf_Prim_pos: "0 < n \<Longrightarrow> treeOf n h (Prim p) = Some (TPrim p)"
  by (cases n) auto

lemma treeOf_fuel_pos: "treeOf n h v = Some t \<Longrightarrow> 0 < n"
  by (cases n) auto

lemma mergeKeys_total:
  assumes T: "\<And>h t s tt ts. treeOf n h t = Some tt \<Longrightarrow> treeOf n h s = Some ts \<Longrightarrow>
                \<exists>h' res. deepMerge n h t s = Some (h', res)"
    and a: "a < length h0" and r: "length h0 \<le> r"
    and tgt: "\<forall>k. 0 < n \<longrightarrow> (\<exists>u. treeOf n h0 (readProp h0 (Ref a) k) = Some u)"
  shows "prefix h0 g \<Longrightarrow> \<forall>kx \<in> set ps. \<exists>u. treeOf n h0 (snd kx) = Some u \<Longrightarrow>
         \<exists>h'. mergeKeys n g (Ref a) r ps = Some h'"
proof (induction ps arbitrary: g)
  case Nil
  then show ?case by simp
next
  case (Cons kv ps)
  obtain key sv where kv: "kv = (key, sv)" by (cases kv)
  from Cons.prems(2) obtain u where u: "treeOf n h0 sv = Some u" unfolding kv by auto
  have n: "0 < n" using u by (rule treeOf_fuel_pos)
  have rest: "\<forall>kx \<in> set ps. \<exists>u. treeOf n h0 (snd kx) = Some u" using Cons.prems(2) by simp
  show ?case
  proof (cases "isObject g sv")
    case False
    have "prefix h0 (setOwn g r key sv)" using Cons.prems(1) r by (rule setOwn_prefix)
    from Cons.IH[OF this rest] show ?thesis using False unfolding kv by simp
  next
    case True
    define h1 where "h1 = (if \<not> truthy (readProp g (Ref a) key)
                      then setOwn (g @ [Obj []]) r key (Ref (length g)) else g)"
    have "prefix h0 (g @ [Obj []])" using Cons.prems(1) by (rule prefix_order.trans) simp
    then have p1: "prefix h0 h1" using Cons.prems(1) r by (simp add: h1_def setOwn_prefix)
    have "readProp h1 (Ref a) key = readProp h0 (Ref a) key"
      using cellAt_prefix_eq[OF p1 a] by (rule readProp_cell)
    moreover from tgt n obtain w where "treeOf n h0 (readProp h0 (Ref a) key) = Some w" by blast
    ultimately have tw: "treeOf n h1 (readProp h1 (Ref a) key) = Some w"
      using treeOf_prefix[OF _ p1] by simp
    have tu: "treeOf n h1 sv = Some u" using u p1 by (rule treeOf_prefix)
    from T[OF tw tu] obtain h2 m where d: "deepMerge n h1 (readProp h1 (Ref a) key) sv = Some (h2, m)"
      by blast
    have "prefix h1 h2" using d by (rule deepMerge_extends)
    with p1 have "prefix h0 h2" by (rule prefix_order.trans)
    then have "prefix h0 (setOwn h2 r key m)" using r by (rule setOwn_prefix)
    from Cons.IH[OF this rest] obtain h' where "mergeKeys n (setOwn h2 r key m) (Ref a) r ps = Some h'"
      by blast
    then show ?thesis using True d unfolding kv h1_def by (simp add: Let_def)
  qed
qed

lemma readProp_children:
  assumes "treeOf (Suc n) h (Ref a) = Some t" and "isObject h (Ref a)" and "0 < n"
  shows "\<exists>u. treeOf n h (readProp h (Ref a) k) = Some u"
proof (cases "map_of (ownProps h (Ref a)) k")
  case None
  then have "readProp h (Ref a) k = Prim PUndef"
    using assms(2)
    by (auto simp: readProp_def getOwn_def ownProps_def isObject_def
        split: option.splits cell.splits)
  then show ?thesis using assms(3) by (simp add: treeOf_Prim_pos)
next
  case (Some x)
  then have "readProp h (Ref a) k = x"
    using assms(2)
    by (auto simp: readProp_def getOwn_def ownProps_def isObject_def
        split: option.splits cell.splits)
  moreover have "(k, x) \<in> set (ownProps h (Ref a))" using Some by (rule map_of_SomeD)
  ultimately show ?thesis using children_trees(2)[OF assms(1)] by fastforce
qed

lemma deepMerge_total:
  "treeOf n h t = Some tt \<Longrightarrow> treeOf n h s = Some ts \<Longrightarrow>
   \<exists>h' res. deepMerge n h t s = Some (h', res)"
proof (induction n arbitrary: h t s tt ts)
  case 0
  then show ?case by simp
next
  case (Suc n)
  from deepClone_spec[OF Suc.prems(1)] obtain h1 result where
    c: "deepClone (Suc n) h t = Some (h1, result)" and p1: "prefix h h1"
    by blast
  show ?case
  proof (cases "isObject h1 t \<and> isObject h1 s")
    case False
    with c show ?thesis by auto
  next
    case True
    show ?thesis
    proof (cases result)
      case (Prim p)
      with c True show ?thesis by auto
    next
      case (Ref r)
      from True isObject_Ref[of h1 t] isObject_Ref[of h1 s]
      obtain a b where t: "t = Ref a" and s: "s = Ref b" by blast
      have a: "a < length h" using addrs_allocated[OF Suc.prems(1)[unfolded t], of a]
        Suc.prems(1) unfolding t by (auto split: option.splits cell.splits if_splits)
      have b: "b < length h" using addrs_allocated[OF Suc.prems(2)[unfolded s], of b]
        Suc.prems(2) unfolding s by (auto split: option.splits cell.splits if_splits)
      have r: "length h \<le> r" using deepClone_Ref_new[OF c[unfolded Ref]] by simp
      have oa: "isObject h (Ref a)"
        using True isObject_cell[OF cellAt_prefix_eq[OF p1 a]] unfolding t by simp
      have tgt: "\<forall>k. 0 < n \<longrightarrow> (\<exists>u. treeOf n h (readProp h (Ref a) k) = Some u)"
        using readProp_children[OF Suc.prems(1)[unfolded t] oa] by blast
      have src: "\<forall>kx \<in> set (ownProps h1 s). \<exists>u. treeOf n h (snd kx) = Some u"
        using children_trees(2)[OF Suc.prems(2)[unfolded s]]
          ownProps_cell[OF cellAt_prefix_eq[OF p1 b]] unfolding s by simp
      have "\<exists>h'. mergeKeys n h1 (Ref a) r (ownProps h1 s) = Some h'"
        by (rule mergeKeys_total[OF _ a r tgt p1 src]) (erule Suc.IH, assumption)
      then obtain h' where "mergeKeys n h1 (Ref a) r (ownProps h1 s) = Some h'" by blast
      with c True Ref show ?thesis unfolding t by simp
    qed
  qed
qed

text \<open>
  C5. \<open>deepMerge(target, source)\<close> leaves \<open>target\<close> as it is: the store before the
  call is a prefix of the store after it, so no cell that existed is written, and
  \<open>target\<close> denotes the same tree, address by address and key by key. On finite values
  the call returns.
\<close>

theorem deepMerge_leaves_target:
  "(deepMerge n h target source = Some (h', result) \<longrightarrow>
      prefix h h' \<and> (treeOf m h target = Some t \<longrightarrow> treeOf m h' target = Some t))
   \<and> (treeOf n h target = Some tt \<and> treeOf n h source = Some ts \<longrightarrow>
        (\<exists>h'' res. deepMerge n h target source = Some (h'', res)
           \<and> prefix h h'' \<and> treeOf n h'' target = Some tt))"
proof (intro conjI impI)
  assume d: "deepMerge n h target source = Some (h', result)"
  then show "prefix h h'" by (rule deepMerge_extends)
  assume "treeOf m h target = Some t"
  then show "treeOf m h' target = Some t" using deepMerge_extends[OF d] by (rule treeOf_prefix)
next
  assume a: "treeOf n h target = Some tt \<and> treeOf n h source = Some ts"
  then obtain h'' res where d: "deepMerge n h target source = Some (h'', res)"
    using deepMerge_total by blast
  have p: "prefix h h''" using d by (rule deepMerge_extends)
  have "treeOf n h'' target = Some tt" using a p treeOf_prefix by blast
  with d p show "\<exists>h'' res. deepMerge n h target source = Some (h'', res)
           \<and> prefix h h'' \<and> treeOf n h'' target = Some tt" by blast
qed

theorem deepMerge_leaves_target_witness:
  "treeOf 3 [Obj [(''a'', Ref 3)], Obj [(''x'', Prim (PNum (Fin 1)))], Obj [(''a'', Ref 1)],
             Obj [(''y'', Prim (PNum (Fin 2)))]] (Ref 0)
     = Some (TObj 0 [(''a'', TObj 3 [(''y'', TPrim (PNum (Fin 2)))])])
   \<and> treeOf 3 [Obj [(''a'', Ref 3)], Obj [(''x'', Prim (PNum (Fin 1)))], Obj [(''a'', Ref 1)],
             Obj [(''y'', Prim (PNum (Fin 2)))]] (Ref 2)
     = Some (TObj 2 [(''a'', TObj 1 [(''x'', TPrim (PNum (Fin 1)))])])
   \<and> deepMerge 3 [Obj [(''a'', Ref 3)], Obj [(''x'', Prim (PNum (Fin 1)))], Obj [(''a'', Ref 1)],
             Obj [(''y'', Prim (PNum (Fin 2)))]] (Ref 0) (Ref 2)
     = Some ([Obj [(''a'', Ref 3)], Obj [(''x'', Prim (PNum (Fin 1)))], Obj [(''a'', Ref 1)],
              Obj [(''y'', Prim (PNum (Fin 2)))],
              Obj [(''y'', Prim (PNum (Fin 2)))], Obj [(''a'', Ref 6)],
              Obj [(''y'', Prim (PNum (Fin 2))), (''x'', Prim (PNum (Fin 1)))]], Ref 5)
   \<and> treeOf 3 [Obj [(''a'', Ref 3)], Obj [(''x'', Prim (PNum (Fin 1)))], Obj [(''a'', Ref 1)],
              Obj [(''y'', Prim (PNum (Fin 2)))],
              Obj [(''y'', Prim (PNum (Fin 2)))], Obj [(''a'', Ref 6)],
              Obj [(''y'', Prim (PNum (Fin 2))), (''x'', Prim (PNum (Fin 1)))]] (Ref 0)
     = Some (TObj 0 [(''a'', TObj 3 [(''y'', TPrim (PNum (Fin 2)))])])"
proof -
  let ?H = "[Obj [(''a'', Ref 3)], Obj [(''x'', Prim (PNum (Fin 1)))], Obj [(''a'', Ref 1)],
             Obj [(''y'', Prim (PNum (Fin 2)))]]"
  let ?H' = "?H @ [Obj [(''y'', Prim (PNum (Fin 2)))], Obj [(''a'', Ref 6)],
              Obj [(''y'', Prim (PNum (Fin 2))), (''x'', Prim (PNum (Fin 1)))]]"
  have t: "treeOf 3 ?H (Ref 0) = Some (TObj 0 [(''a'', TObj 3 [(''y'', TPrim (PNum (Fin 2)))])])"
    and s: "treeOf 3 ?H (Ref 2) = Some (TObj 2 [(''a'', TObj 1 [(''x'', TPrim (PNum (Fin 1)))])])"
    by (simp_all add: numeral_3_eq_3 cellAt_def)
  have d: "deepMerge 3 ?H (Ref 0) (Ref 2) = Some (?H', Ref 5)"
    by (simp add: numeral_3_eq_3 store_defs)
  from d t deepMerge_leaves_target[of 3 ?H "Ref 0" "Ref 2" ?H' "Ref 5" 3
      "TObj 0 [(''a'', TObj 3 [(''y'', TPrim (PNum (Fin 2)))])]"]
  have "treeOf 3 ?H' (Ref 0) = Some (TObj 0 [(''a'', TObj 3 [(''y'', TPrim (PNum (Fin 2)))])])"
    by blast
  with t s d show ?thesis by simp
qed

subsection \<open>Finite values have no cycle\<close>

text \<open>More fuel unfolds the same tree.\<close>

lemma treeOf_Suc_fuel:
  "treeOf n h v = Some t \<Longrightarrow> treeOf (Suc n) h v = Some t"
proof (induction n arbitrary: v t)
  case 0
  then show ?case by simp
next
  case (Suc n)
  show ?case
  proof (cases v)
    case (Prim p)
    with Suc.prems show ?thesis by simp
  next
    case (Ref a)
    from Suc.prems Ref obtain c where c: "cellAt h a = Some c" by (auto split: option.splits)
    show ?thesis
    proof (cases c)
      case (Arr xs)
      with Suc.prems Ref c obtain ts where ts: "treesOf n h xs = Some ts" "t = TArr a ts" by auto
      have "treesOf (Suc n) h xs = Some ts"
        using treesOf_nth[OF ts(1)] Suc.IH by (intro treesOf_from_nth) auto
      with Ref c Arr ts(2) show ?thesis by simp
    next
      case (Obj kvs)
      with Suc.prems Ref c obtain kts where
        kts: "entriesOf n h kvs = Some kts" "t = TObj a kts" "distinct (map fst kvs)"
        by (auto split: if_splits)
      have "entriesOf (Suc n) h kvs = Some kts"
        using entriesOf_nth[OF kts(1)] Suc.IH by (intro entriesOf_from_nth) auto
      with Ref c Obj kts(2,3) show ?thesis by simp
    next
      case (DateObj tm kvs)
      with Suc.prems Ref c obtain kts where
        kts: "entriesOf n h kvs = Some kts" "t = TDate a tm kts" "distinct (map fst kvs)"
        by (auto split: if_splits)
      have "entriesOf (Suc n) h kvs = Some kts"
        using entriesOf_nth[OF kts(1)] Suc.IH by (intro entriesOf_from_nth) auto
      with Ref c DateObj kts(2,3) show ?thesis by simp
    qed
  qed
qed

lemma treeOf_more_fuel:
  "treeOf n h v = Some t \<Longrightarrow> treeOf (n + k) h v = Some t"
  by (induction k) (auto intro: treeOf_Suc_fuel)

lemma treeOf_unique:
  assumes "treeOf n h v = Some t" and "treeOf m h v = Some u"
  shows "t = u"
proof (cases "n \<le> m")
  case True
  then obtain k where "m = n + k" by (auto simp: le_iff_add)
  with treeOf_more_fuel[OF assms(1), of k] assms(2) show ?thesis by simp
next
  case False
  then obtain k where "n = m + k" by (metis le_iff_add nat_le_linear)
  with treeOf_more_fuel[OF assms(2), of k] assms(1) show ?thesis by simp
qed

text \<open>The direct children of a reference: the values its cell holds.\<close>

lemma child_tree_cases:
  assumes "treeOf (Suc n) h (Ref a) = Some t"
  shows "b \<in> addrs t \<longleftrightarrow> b = a \<or> (\<exists>x u. x \<in> set (items h (Ref a)) \<union> snd ` set (ownProps h (Ref a))
            \<and> treeOf n h x = Some u \<and> b \<in> addrs u)"
proof -
  from assms obtain c where c: "cellAt h a = Some c" by (auto split: option.splits)
  show ?thesis
  proof (cases c)
    case (Arr xs)
    with assms c obtain ts where ts: "treesOf n h xs = Some ts" "t = TArr a ts" by auto
    have it: "items h (Ref a) = xs" "ownProps h (Ref a) = []"
      using c Arr by (simp_all add: items_def ownProps_def)
    have len: "length ts = length xs" using treesOf_nth[OF ts(1)] by simp
    show ?thesis
    proof
      assume "b \<in> addrs t"
      then show "b = a \<or> (\<exists>x u. x \<in> set (items h (Ref a)) \<union> snd ` set (ownProps h (Ref a))
            \<and> treeOf n h x = Some u \<and> b \<in> addrs u)"
      proof (cases "b = a")
        case False
        with \<open>b \<in> addrs t\<close> ts(2) obtain u where u: "u \<in> set ts" "b \<in> addrs u" by auto
        then obtain i where i: "i < length ts" "ts ! i = u" by (auto simp: in_set_conv_nth)
        with treesOf_nth[OF ts(1)] len have "treeOf n h (xs ! i) = Some u" "xs ! i \<in> set xs" by auto
        with u(2) it show ?thesis by auto
      qed simp
    next
      assume r: "b = a \<or> (\<exists>x u. x \<in> set (items h (Ref a)) \<union> snd ` set (ownProps h (Ref a))
            \<and> treeOf n h x = Some u \<and> b \<in> addrs u)"
      show "b \<in> addrs t"
      proof (cases "b = a")
        case True
        then show ?thesis using ts(2) by simp
      next
        case False
        with r it obtain x u where x: "x \<in> set xs" "treeOf n h x = Some u" "b \<in> addrs u" by auto
        then obtain i where i: "i < length xs" "xs ! i = x" by (auto simp: in_set_conv_nth)
        with treesOf_nth[OF ts(1)] x(2) have "ts ! i = u" by auto
        with i len have "u \<in> set ts" by auto
        with x(3) ts(2) show ?thesis by auto
      qed
    qed
  next
    case (Obj kvs)
    with assms c obtain kts where kts: "entriesOf n h kvs = Some kts" "t = TObj a kts"
      by (auto split: if_splits)
    have it: "items h (Ref a) = []" "ownProps h (Ref a) = kvs"
      using c Obj by (simp_all add: items_def ownProps_def)
    have len: "length kts = length kvs"
      using entriesOf_nth[OF kts(1)] by (auto dest: map_eq_imp_length_eq)
    show ?thesis
    proof
      assume "b \<in> addrs t"
      then show "b = a \<or> (\<exists>x u. x \<in> set (items h (Ref a)) \<union> snd ` set (ownProps h (Ref a))
            \<and> treeOf n h x = Some u \<and> b \<in> addrs u)"
      proof (cases "b = a")
        case False
        with \<open>b \<in> addrs t\<close> kts(2) obtain kt where u: "kt \<in> set kts" "b \<in> addrs (snd kt)" by auto
        then obtain i where i: "i < length kts" "kts ! i = kt" by (auto simp: in_set_conv_nth)
        with entriesOf_nth[OF kts(1)] len
        have "treeOf n h (snd (kvs ! i)) = Some (snd kt)" "kvs ! i \<in> set kvs" by auto
        with u(2) it show ?thesis by auto
      qed simp
    next
      assume r: "b = a \<or> (\<exists>x u. x \<in> set (items h (Ref a)) \<union> snd ` set (ownProps h (Ref a))
            \<and> treeOf n h x = Some u \<and> b \<in> addrs u)"
      show "b \<in> addrs t"
      proof (cases "b = a")
        case True
        then show ?thesis using kts(2) by simp
      next
        case False
        with r it obtain kx u where x: "kx \<in> set kvs" "treeOf n h (snd kx) = Some u" "b \<in> addrs u"
          by auto
        then obtain i where i: "i < length kvs" "kvs ! i = kx" by (auto simp: in_set_conv_nth)
        with entriesOf_nth[OF kts(1)] x(2) have "snd (kts ! i) = u" by auto
        moreover have "kts ! i \<in> set kts" using i len by simp
        ultimately show ?thesis using x(3) kts(2) by auto
      qed
    qed
  next
    case (DateObj tm kvs)
    with assms c obtain kts where kts: "entriesOf n h kvs = Some kts" "t = TDate a tm kts"
      by (auto split: if_splits)
    have it: "items h (Ref a) = []" "ownProps h (Ref a) = kvs"
      using c DateObj by (simp_all add: items_def ownProps_def)
    have len: "length kts = length kvs"
      using entriesOf_nth[OF kts(1)] by (auto dest: map_eq_imp_length_eq)
    show ?thesis
    proof
      assume "b \<in> addrs t"
      then show "b = a \<or> (\<exists>x u. x \<in> set (items h (Ref a)) \<union> snd ` set (ownProps h (Ref a))
            \<and> treeOf n h x = Some u \<and> b \<in> addrs u)"
      proof (cases "b = a")
        case False
        with \<open>b \<in> addrs t\<close> kts(2) obtain kt where u: "kt \<in> set kts" "b \<in> addrs (snd kt)" by auto
        then obtain i where i: "i < length kts" "kts ! i = kt" by (auto simp: in_set_conv_nth)
        with entriesOf_nth[OF kts(1)] len
        have "treeOf n h (snd (kvs ! i)) = Some (snd kt)" "kvs ! i \<in> set kvs" by auto
        with u(2) it show ?thesis by auto
      qed simp
    next
      assume r: "b = a \<or> (\<exists>x u. x \<in> set (items h (Ref a)) \<union> snd ` set (ownProps h (Ref a))
            \<and> treeOf n h x = Some u \<and> b \<in> addrs u)"
      show "b \<in> addrs t"
      proof (cases "b = a")
        case True
        then show ?thesis using kts(2) by simp
      next
        case False
        with r it obtain kx u where x: "kx \<in> set kvs" "treeOf n h (snd kx) = Some u" "b \<in> addrs u"
          by auto
        then obtain i where i: "i < length kvs" "kvs ! i = kx" by (auto simp: in_set_conv_nth)
        with entriesOf_nth[OF kts(1)] x(2) have "snd (kts ! i) = u" by auto
        moreover have "kts ! i \<in> set kts" using i len by simp
        ultimately show ?thesis using x(3) kts(2) by auto
      qed
    qed
  qed
qed

text \<open>An address of a tree is the root of a tree that needs no more fuel.\<close>

lemma subtree_fuel:
  "treeOf n h v = Some t \<Longrightarrow> b \<in> addrs t \<Longrightarrow> \<exists>m u. m \<le> n \<and> treeOf m h (Ref b) = Some u"
proof (induction n arbitrary: v t)
  case 0
  then show ?case by simp
next
  case (Suc n)
  show ?case
  proof (cases v)
    case (Prim p)
    with Suc.prems show ?thesis by auto
  next
    case (Ref a)
    show ?thesis
    proof (cases "b = a")
      case True
      with Suc.prems(1) Ref show ?thesis by blast
    next
      case False
      with child_tree_cases[OF Suc.prems(1)[unfolded Ref], of b] Suc.prems(2)
      obtain x u where "treeOf n h x = Some u" "b \<in> addrs u" by blast
      from Suc.IH[OF this] obtain m w where "m \<le> n" "treeOf m h (Ref b) = Some w" by blast
      then show ?thesis by (meson le_SucI)
    qed
  qed
qed

text \<open>A finite value has no cycle: a reference is no address of the trees of its children.\<close>

lemma no_cycle:
  "treeOf (Suc n) h (Ref a) = Some t \<Longrightarrow>
   x \<in> set (items h (Ref a)) \<union> snd ` set (ownProps h (Ref a)) \<Longrightarrow>
   treeOf n h x = Some u \<Longrightarrow> a \<notin> addrs u"
proof (induction n arbitrary: t u rule: less_induct)
  case (less n)
  show ?case
  proof
    assume "a \<in> addrs u"
    from subtree_fuel[OF less.prems(3) this] obtain m w where
      m: "m \<le> n" and w: "treeOf m h (Ref a) = Some w" by blast
    from w obtain k where k: "m = Suc k" by (cases m) auto
    have "\<exists>u'. treeOf k h x = Some u'"
      using children_trees(1,2)[OF w[unfolded k]] less.prems(2) by auto
    then obtain u' where u': "treeOf k h x = Some u'" by blast
    have "u' = u" using u' less.prems(3) by (rule treeOf_unique)
    have "k < n" using m k by simp
    from less.IH[OF this w[unfolded k] less.prems(2) u'] \<open>a \<in> addrs u\<close> \<open>u' = u\<close>
    show False by simp
  qed
qed

subsection \<open>set\<close>

lemma map_of_put: "map_of (put kvs k x) k' = (if k' = k then Some x else map_of kvs k')"
  by (induction kvs) auto

lemma keys_put: "fst ` set (put kvs k x) = insert k (fst ` set kvs)"
proof -
  have "dom (map_of (put kvs k x)) = insert k (dom (map_of kvs))"
    by (auto simp: map_of_put dom_def)
  then show ?thesis by (simp add: dom_map_of_conv_image_fst)
qed

lemma getOwn_put: "getOwn (put kvs k x) k = x"
  by (simp add: getOwn_def map_of_put)

lemma getOwn_absent: "k \<notin> fst ` set kvs \<Longrightarrow> getOwn kvs k = Prim PUndef"
  by (simp add: getOwn_def map_of_eq_None_iff[symmetric])

text \<open>Reading and writing a key that is no inherited name, on an object.\<close>

lemma object_reads:
  assumes "isObject h (Ref a)" and "\<not> inherited E k"
  shows "getProp E h (Ref a) k = Some (Inr (getOwn (ownProps h (Ref a)) k))"
  using assms object_props[OF assms(1), of k] getOwn_absent[of k "ownProps h (Ref a)"]
  by (simp add: getProp_def)

lemma object_write:
  assumes "isObject h (Ref a)"
  shows "\<not> inherited E k \<Longrightarrow> putProp E h (Ref a) k x = Some (Inr (setOwn h a k x))"
    and "isObject (setOwn h a k x) (Ref a)"
    and "ownProps (setOwn h a k x) (Ref a) = put (ownProps h (Ref a)) k x"
  using assms
  by (auto simp: isObject_def putProp_def setOwn_def ownProps_def cellAt_def
      split: option.splits cell.splits if_splits)

lemma setOwn_other: "c \<noteq> a \<Longrightarrow> cellAt (setOwn h a k x) c = cellAt h c"
  by (auto simp: setOwn_def cellAt_def split: option.splits cell.splits)

lemma same_cell_object:
  assumes "cellAt g a = cellAt h a"
  shows "isObject g (Ref a) = isObject h (Ref a)" and "ownProps g (Ref a) = ownProps h (Ref a)"
  using assms by (simp_all add: isObject_def ownProps_def)

lemma viaMappings_empty:
  "(\<And>k. readProp h v k = Prim PUndef) \<Longrightarrow> viaMappings h v ks"
  by (cases "(h, v, ks)" rule: viaMappings.cases) auto

lemma root_addr: "treeOf n h (Ref a) = Some t \<Longrightarrow> a \<in> addrs t"
  by (cases n) (auto simp: child_tree_cases)

lemma getOwn_defined:
  "getOwn kvs k \<noteq> Prim PUndef \<Longrightarrow> (k, getOwn kvs k) \<in> set kvs"
  by (auto simp: getOwn_def split: option.splits dest: map_of_SomeD)

text \<open>What the call leaves behind: the value at the path, and mappings on the way.\<close>

lemma setLoop_spec:
  "ks \<noteq> [] \<Longrightarrow> \<forall>k \<in> set ks. \<not> inherited E k \<Longrightarrow> isObject h current \<Longrightarrow>
   treeOf n h current = Some t \<Longrightarrow> viaMappings h current ks \<Longrightarrow>
   \<exists>h'. setLoop E h current ks x = Some (Inr h') \<and> length h \<le> length h'
      \<and> (\<forall>c < length h. c \<notin> addrs t \<longrightarrow> cellAt h' c = cellAt h c)
      \<and> resolve h' current ks = Some x \<and> mappingsTo h' current ks"
proof (induction ks arbitrary: h current n t)
  case Nil
  then show ?case by simp
next
  case (Cons k ks)
  from Cons.prems(3) obtain a where cur: "current = Ref a" and al: "a < length h"
    by (auto dest: isObject_Ref)
  note obj = Cons.prems(3)[unfolded cur]
  note tr = Cons.prems(4)[unfolded cur]
  have pk: "\<not> inherited E k" and pks: "\<forall>k \<in> set ks. \<not> inherited E k"
    using Cons.prems(2) by simp_all
  have root: "a \<in> addrs t" using tr by (rule root_addr)
  show ?case
  proof (cases ks)
    case Nil
    let ?h' = "setOwn h a k x"
    have 1: "setLoop E h current (k # ks) x = Some (Inr ?h')"
      unfolding cur Nil using object_write(1)[OF obj pk] by simp
    have 2: "\<forall>c < length h. c \<notin> addrs t \<longrightarrow> cellAt ?h' c = cellAt h c"
      using root setOwn_other by metis
    have o': "isObject ?h' (Ref a)" using obj by (rule object_write(2))
    have "owns ?h' (Ref a) k" "readProp ?h' (Ref a) k = x"
      using object_props[OF o'] object_write(3)[OF obj]
      by (simp_all add: keys_put getOwn_put)
    then have 3: "resolve ?h' current (k # ks) = Some x" unfolding cur Nil by simp
    have 4: "mappingsTo ?h' current (k # ks)" unfolding cur Nil using o' by simp
    from 1 2 3 4 show ?thesis by auto
  next
    case (Cons k' ks')
    from tr obtain n' where n: "n = Suc n'" by (cases n) auto
    let ?kvs = "ownProps h (Ref a)"
    let ?child = "getOwn ?kvs k"
    have gp: "getProp E h (Ref a) k = Some (Inr ?child)" using obj pk by (rule object_reads)
    have rp: "readProp h (Ref a) k = ?child" using object_props(1)[OF obj] by simp
    show ?thesis
    proof (cases "truthy ?child")
      case False
      let ?L = "length h"
      let ?g = "h @ [Obj []]"
      have pg: "prefix h ?g" by simp
      have cg: "cellAt ?g a = cellAt h a" using pg al by (rule cellAt_prefix_eq)
      have og: "isObject ?g (Ref a)" using same_cell_object(1)[OF cg] obj by simp
      let ?h1 = "setOwn ?g a k (Ref ?L)"
      have w: "putProp E ?g (Ref a) k (Ref ?L) = Some (Inr ?h1)" using og pk by (rule object_write(1))
      have o1: "isObject ?h1 (Ref a)" using og by (rule object_write(2))
      have p1: "ownProps ?h1 (Ref a) = put ?kvs k (Ref ?L)"
        using object_write(3)[OF og] same_cell_object(2)[OF cg] by simp
      have g1: "getProp E ?h1 (Ref a) k = Some (Inr (Ref ?L))"
        using object_reads[OF o1 pk] p1 by (simp add: getOwn_put)
      have aL: "?L \<noteq> a" using al by simp
      have cL: "cellAt ?h1 ?L = Some (Obj [])" using setOwn_other[OF aL, of ?g k "Ref ?L"] by simp
      have oL: "isObject ?h1 (Ref ?L)" using cL by (simp add: isObject_def)
      have tL: "treeOf (Suc 0) ?h1 (Ref ?L) = Some (TObj ?L [])" using cL by simp
      have "\<And>k. readProp ?h1 (Ref ?L) k = Prim PUndef"
        using cL by (simp add: readProp_def getOwn_def)
      then have vL: "viaMappings ?h1 (Ref ?L) ks" by (rule viaMappings_empty)
      have ne: "ks \<noteq> []" using Cons by simp
      from Cons.IH[OF ne pks oL tL vL] obtain h2 where
        s2: "setLoop E ?h1 (Ref ?L) ks x = Some (Inr h2)" and l2: "length ?h1 \<le> length h2"
        and f2: "\<forall>c < length ?h1. c \<notin> addrs (TObj ?L []) \<longrightarrow> cellAt h2 c = cellAt ?h1 c"
        and r2: "resolve h2 (Ref ?L) ks = Some x" and m2: "mappingsTo h2 (Ref ?L) ks"
        by blast
      have 1: "setLoop E h current (k # ks) x = Some (Inr h2)"
        unfolding cur Cons using gp False w g1 s2[unfolded Cons] by simp
      have la: "length h \<le> length h2" using l2 by simp
      have c2: "cellAt h2 a = cellAt ?h1 a" using f2 al aL by simp
      have o2: "isObject h2 (Ref a)" using same_cell_object(1)[OF c2] o1 by simp
      have p2: "ownProps h2 (Ref a) = put ?kvs k (Ref ?L)"
        using same_cell_object(2)[OF c2] p1 by simp
      have "owns h2 (Ref a) k" "readProp h2 (Ref a) k = Ref ?L"
        using object_props[OF o2] p2 by (simp_all add: keys_put getOwn_put)
      then have 3: "resolve h2 current (k # ks) = Some x"
        and 4: "mappingsTo h2 current (k # ks)"
        unfolding cur Cons using r2 m2 o2 unfolding Cons by simp_all
      have 2: "\<forall>c < length h. c \<notin> addrs t \<longrightarrow> cellAt h2 c = cellAt h c"
      proof (intro allI impI)
        fix c assume c: "c < length h" "c \<notin> addrs t"
        then have ca: "c \<noteq> a" using root by auto
        have "cellAt h2 c = cellAt ?h1 c" using f2 c(1) by simp
        also have "\<dots> = cellAt ?g c" using ca by (rule setOwn_other)
        also have "\<dots> = cellAt h c" using pg c(1) by (rule cellAt_prefix_eq)
        finally show "cellAt h2 c = cellAt h c" .
      qed
      from 1 la 2 3 4 show ?thesis by blast
    next
      case True
      from Cons.prems(5) True have oc: "isObject h ?child" and vc: "viaMappings h ?child ks"
        unfolding cur Cons using rp by auto
      have "?child \<noteq> Prim PUndef" using True by auto
      then have mem: "(k, ?child) \<in> set ?kvs" by (rule getOwn_defined)
      then have cs: "?child \<in> set (items h (Ref a)) \<union> snd ` set ?kvs" by force
      from children_trees(2)[OF tr[unfolded n]] mem obtain u where
        u: "treeOf n' h ?child = Some u" by fastforce
      have nc: "a \<notin> addrs u" using tr[unfolded n] cs u by (rule no_cycle)
      have sub: "addrs u \<subseteq> addrs t"
        using child_tree_cases[OF tr[unfolded n]] cs u by blast
      have ne: "ks \<noteq> []" using Cons by simp
      from Cons.IH[OF ne pks oc u vc] obtain h2 where
        s2: "setLoop E h ?child ks x = Some (Inr h2)" and l2: "length h \<le> length h2"
        and f2: "\<forall>c < length h. c \<notin> addrs u \<longrightarrow> cellAt h2 c = cellAt h c"
        and r2: "resolve h2 ?child ks = Some x" and m2: "mappingsTo h2 ?child ks"
        by blast
      have 1: "setLoop E h current (k # ks) x = Some (Inr h2)"
        unfolding cur Cons using gp True s2[unfolded Cons] by simp
      have c2: "cellAt h2 a = cellAt h a" using f2 al nc by simp
      have o2: "isObject h2 (Ref a)" using same_cell_object(1)[OF c2] obj by simp
      have p2: "ownProps h2 (Ref a) = ?kvs" using same_cell_object(2)[OF c2] by simp
      have "k \<in> fst ` set ?kvs" using mem by force
      then have "owns h2 (Ref a) k" "readProp h2 (Ref a) k = ?child"
        using object_props[OF o2] p2 by simp_all
      then have 3: "resolve h2 current (k # ks) = Some x"
        and 4: "mappingsTo h2 current (k # ks)"
        unfolding cur Cons using r2 m2 o2 unfolding Cons by simp_all
      have 2: "\<forall>c < length h. c \<notin> addrs t \<longrightarrow> cellAt h2 c = cellAt h c"
        using f2 sub by blast
      from 1 l2 2 3 4 show ?thesis by blast
    qed
  qed
qed

lemma splitPath_nonempty: "splitPath p \<noteq> []"
  by (cases p) (auto split: list.splits)

text \<open>The store after the call. On a fresh empty mapping at the end of the store the loop
  lays down the chain of fresh mappings.\<close>

lemma setOwn_last:
  "length g = Suc L \<Longrightarrow> cellAt g L = Some (Obj kvs) \<Longrightarrow>
   setOwn g L k x = take L g @ [Obj (put kvs k x)]"
  by (simp add: setOwn_def cellAt_def upd_conv_take_nth_drop)

lemma setLoop_fresh:
  "ks \<noteq> [] \<Longrightarrow> \<forall>k \<in> set ks. \<not> inherited E k \<Longrightarrow> cellAt g L = Some (Obj []) \<Longrightarrow>
   length g = Suc L \<Longrightarrow>
   setLoop E g (Ref L) ks x = Some (Inr (take L g @ chain L ks x))"
proof (induction ks arbitrary: g L)
  case Nil
  then show ?case by simp
next
  case (Cons k ks)
  have pk: "\<not> inherited E k" and pks: "\<forall>k \<in> set ks. \<not> inherited E k"
    using Cons.prems(2) by simp_all
  have obj: "isObject g (Ref L)" using Cons.prems(3) by (simp add: isObject_def)
  have props: "ownProps g (Ref L) = []" using Cons.prems(3) by (simp add: ownProps_def)
  show ?case
  proof (cases ks)
    case Nil
    have "setLoop E g (Ref L) [k] x = Some (Inr (setOwn g L k x))"
      using object_write(1)[OF obj pk] by simp
    then show ?thesis
      unfolding Nil using setOwn_last[OF Cons.prems(4,3)] by simp
  next
    case (Cons k' ks')
    let ?g' = "g @ [Obj []]"
    let ?h1 = "setOwn ?g' L k (Ref (Suc L))"
    have gp: "getProp E g (Ref L) k = Some (Inr (Prim PUndef))"
      using object_reads[OF obj pk] props by (simp add: getOwn_def)
    have pg: "prefix g ?g'" by simp
    have Ll: "L < length g" using Cons.prems(4) by simp
    have cg: "cellAt ?g' L = cellAt g L" using pg Ll by (rule cellAt_prefix_eq)
    have og: "isObject ?g' (Ref L)" using same_cell_object(1)[OF cg] obj by simp
    have w: "putProp E ?g' (Ref L) k (Ref (length g)) = Some (Inr ?h1)"
      using object_write(1)[OF og pk] Cons.prems(4) by simp
    have o1: "isObject ?h1 (Ref L)" using og by (rule object_write(2))
    have p1: "ownProps ?h1 (Ref L) = put [] k (Ref (Suc L))"
      using object_write(3)[OF og] same_cell_object(2)[OF cg] props by simp
    have g1: "getProp E ?h1 (Ref L) k = Some (Inr (Ref (Suc L)))"
      using object_reads[OF o1 pk] p1 by (simp add: getOwn_def)
    have ne: "Suc L \<noteq> L" by simp
    have cL: "cellAt ?h1 (Suc L) = Some (Obj [])"
      using setOwn_other[OF ne, of ?g' k "Ref (Suc L)"] Cons.prems(4)
      by (simp add: cellAt_def nth_append)
    have l1: "length ?h1 = Suc (Suc L)" using Cons.prems(4) by simp
    have ks: "ks \<noteq> []" using Cons by simp
    from Cons.IH[OF ks pks cL l1]
    have s: "setLoop E ?h1 (Ref (Suc L)) ks x = Some (Inr (take (Suc L) ?h1 @ chain (Suc L) ks x))" .
    have h1: "?h1 = take L g @ [Obj [(k, Ref (Suc L))], Obj []]"
      using Cons.prems(3,4) by (simp add: setOwn_def cellAt_def nth_append upd_conv_take_nth_drop)
    have t1: "take (Suc L) ?h1 = take L g @ [Obj [(k, Ref (Suc L))]]"
      unfolding h1 using Cons.prems(4) by simp
    have "setLoop E g (Ref L) (k # ks) x = setLoop E ?h1 (Ref (Suc L)) ks x"
      unfolding Cons using gp w g1 Cons.prems(4) by simp
    then show ?thesis unfolding s t1 unfolding Cons by simp
  qed
qed

lemma setOwn_append:
  "a < length h \<Longrightarrow> setOwn (h @ cs) a k x = setOwn h a k x @ cs"
  by (simp add: setOwn_def cellAt_def nth_append list_update_append split: cell.splits)

text \<open>
  One key of one mapping of the store is written: the mapping that the path reaches
  through the segments that hold a mapping, at the first segment that is absent or falsy,
  or at the last segment.
\<close>

lemma setLoop_store:
  "ks \<noteq> [] \<Longrightarrow> \<forall>k \<in> set ks. \<not> inherited E k \<Longrightarrow> isObject h current \<Longrightarrow>
   viaMappings h current ks \<Longrightarrow>
   \<exists>j a. j < length ks \<and> resolve h current (take j ks) = Some (Ref a) \<and> isObject h (Ref a)
      \<and> (Suc j < length ks \<longrightarrow> \<not> truthy (readProp h (Ref a) (ks ! j)))
      \<and> setLoop E h current ks x
          = Some (Inr (setOwn h a (ks ! j) (if Suc j = length ks then x else Ref (length h))
                       @ chain (length h) (drop (Suc j) ks) x))"
proof (induction ks arbitrary: current)
  case Nil
  then show ?case by simp
next
  case (Cons k ks)
  from Cons.prems(3) obtain a where cur: "current = Ref a" and al: "a < length h"
    by (auto dest: isObject_Ref)
  note obj = Cons.prems(3)[unfolded cur]
  have pk: "\<not> inherited E k" and pks: "\<forall>k \<in> set ks. \<not> inherited E k"
    using Cons.prems(2) by simp_all
  show ?case
  proof (cases ks)
    case Nil
    have "setLoop E h current (k # ks) x = Some (Inr (setOwn h a k x))"
      unfolding cur Nil using object_write(1)[OF obj pk] by simp
    then have "0 < length (k # ks) \<and> resolve h current (take 0 (k # ks)) = Some (Ref a)
      \<and> isObject h (Ref a)
      \<and> (Suc 0 < length (k # ks) \<longrightarrow> \<not> truthy (readProp h (Ref a) ((k # ks) ! 0)))
      \<and> setLoop E h current (k # ks) x
          = Some (Inr (setOwn h a ((k # ks) ! 0) (if Suc 0 = length (k # ks) then x else Ref (length h))
                       @ chain (length h) (drop (Suc 0) (k # ks)) x))"
      using obj cur Nil by simp
    then show ?thesis by blast
  next
    case (Cons k' ks')
    let ?kvs = "ownProps h (Ref a)"
    let ?child = "getOwn ?kvs k"
    have gp: "getProp E h (Ref a) k = Some (Inr ?child)" using obj pk by (rule object_reads)
    have rp: "readProp h (Ref a) k = ?child" using object_props(1)[OF obj] by simp
    have ne: "ks \<noteq> []" using Cons by simp
    show ?thesis
    proof (cases "truthy ?child")
      case False
      let ?L = "length h"
      let ?g = "h @ [Obj []]"
      let ?h1 = "setOwn ?g a k (Ref ?L)"
      have pg: "prefix h ?g" by simp
      have cg: "cellAt ?g a = cellAt h a" using pg al by (rule cellAt_prefix_eq)
      have og: "isObject ?g (Ref a)" using same_cell_object(1)[OF cg] obj by simp
      have w: "putProp E ?g (Ref a) k (Ref ?L) = Some (Inr ?h1)" using og pk by (rule object_write(1))
      have o1: "isObject ?h1 (Ref a)" using og by (rule object_write(2))
      have p1: "ownProps ?h1 (Ref a) = put ?kvs k (Ref ?L)"
        using object_write(3)[OF og] same_cell_object(2)[OF cg] by simp
      have g1: "getProp E ?h1 (Ref a) k = Some (Inr (Ref ?L))"
        using object_reads[OF o1 pk] p1 by (simp add: getOwn_put)
      have aL: "?L \<noteq> a" using al by simp
      have cL: "cellAt ?h1 ?L = Some (Obj [])" using setOwn_other[OF aL, of ?g k "Ref ?L"] by simp
      have l1: "length ?h1 = Suc ?L" by simp
      have h1: "?h1 = setOwn h a k (Ref ?L) @ [Obj []]" using al by (rule setOwn_append)
      have t1: "take ?L ?h1 = setOwn h a k (Ref ?L)" unfolding h1 by simp
      from setLoop_fresh[OF ne pks cL l1]
      have s: "setLoop E ?h1 (Ref ?L) ks x = Some (Inr (setOwn h a k (Ref ?L) @ chain ?L ks x))"
        unfolding t1 .
      have 1: "setLoop E h current (k # ks) x
          = Some (Inr (setOwn h a k (Ref ?L) @ chain ?L ks x))"
        unfolding cur Cons using gp False w g1 s[unfolded Cons] by simp
      have "0 < length (k # ks) \<and> resolve h current (take 0 (k # ks)) = Some (Ref a)
        \<and> isObject h (Ref a)
        \<and> (Suc 0 < length (k # ks) \<longrightarrow> \<not> truthy (readProp h (Ref a) ((k # ks) ! 0)))
        \<and> setLoop E h current (k # ks) x
            = Some (Inr (setOwn h a ((k # ks) ! 0) (if Suc 0 = length (k # ks) then x else Ref (length h))
                         @ chain (length h) (drop (Suc 0) (k # ks)) x))"
        using obj cur 1 False rp ne by simp
      then show ?thesis by blast
    next
      case True
      from Cons.prems(4) True have oc: "isObject h ?child" and vc: "viaMappings h ?child ks"
        unfolding cur Cons using rp by auto
      have "?child \<noteq> Prim PUndef" using True by auto
      then have mem: "(k, ?child) \<in> set ?kvs" by (rule getOwn_defined)
      then have "k \<in> fst ` set ?kvs" by force
      then have ow: "owns h (Ref a) k" using object_props(2)[OF obj] by simp
      from Cons.IH[OF ne pks oc vc] obtain j b where
        j: "j < length ks" and r: "resolve h ?child (take j ks) = Some (Ref b)"
        and ob: "isObject h (Ref b)"
        and f: "Suc j < length ks \<longrightarrow> \<not> truthy (readProp h (Ref b) (ks ! j))"
        and s: "setLoop E h ?child ks x
          = Some (Inr (setOwn h b (ks ! j) (if Suc j = length ks then x else Ref (length h))
                       @ chain (length h) (drop (Suc j) ks) x))"
        by blast
      have 1: "setLoop E h current (k # ks) x = setLoop E h ?child ks x"
        unfolding cur Cons using gp True by simp
      have "Suc j < length (k # ks) \<and> resolve h current (take (Suc j) (k # ks)) = Some (Ref b)
        \<and> isObject h (Ref b)
        \<and> (Suc (Suc j) < length (k # ks) \<longrightarrow> \<not> truthy (readProp h (Ref b) ((k # ks) ! Suc j)))
        \<and> setLoop E h current (k # ks) x
            = Some (Inr (setOwn h b ((k # ks) ! Suc j)
                           (if Suc (Suc j) = length (k # ks) then x else Ref (length h))
                         @ chain (length h) (drop (Suc (Suc j)) (k # ks)) x))"
        using j r ob f s 1 ow rp cur by simp
      then show ?thesis by blast
    qed
  qed
qed

lemma sameCell_refl: "list_all2 sameCell h h"
proof (rule list_all2_all_nthI)
  show "length h = length h" by simp
next
  fix i assume "i < length h"
  show "sameCell (h ! i) (h ! i)" by (cases "h ! i") (simp_all add: sameCell_def)
qed

text \<open>
  A path through a member that \<open>obj\<close> inherits leaves the store: for
  \<open>set({}, 'constructor.x', 1)\<close> the code writes to a function of the platform, and the
  model has no result.
\<close>

lemma set_inherited_member:
  "set_path \<lparr>numberToString = (\<lambda>x. []), objectToString = (\<lambda>h a. []),
         stringToNumber = (\<lambda>s. NaN), toPrimitive = (\<lambda>h a. PUndef),
         inherited = (\<lambda>k. k \<in> set objectPrototype)\<rparr>
     [Obj []] (Ref 0) ''constructor.x'' x = None"
  by (simp add: set_path_def getProp_def owns_def store_defs objectPrototype_def)

text \<open>
  C2, as the code has it. Let \<open>obj\<close> be a keyed mapping and a finite value, let no segment
  of the path be the name of a member of a built-in prototype, and let every
  intermediate segment be absent, falsy or a keyed mapping. Then \<open>set(obj, path, x)\<close>
  returns. It follows the keyed mappings it finds, up to the mapping \<open>a\<close> that the first
  \<open>j\<close> segments reach, and writes one key of that mapping and nothing else of the store
  as it was: the last segment with \<open>x\<close>, or the first segment that is absent or falsy
  with a fresh mapping, the first of a chain of fresh mappings for the segments that
  remain. Afterwards every value before the last segment is a keyed mapping and the value
  stored at the path is \<open>x\<close>. When \<open>obj\<close> is no keyed mapping the call changes nothing.
\<close>

theorem set_path_stores:
  "(splitPath path = ks \<and> isObject h obj \<and> treeOf n h obj = Some t \<and> viaMappings h obj ks
      \<and> (\<forall>k \<in> set ks. \<not> inherited E k) \<longrightarrow>
      (\<exists>h' j a. set_path E h obj path x = Some (Inr h')
         \<and> resolve h' obj ks = Some x
         \<and> mappingsTo h' obj ks
         \<and> j < length ks \<and> resolve h obj (take j ks) = Some (Ref a) \<and> isObject h (Ref a)
         \<and> (Suc j < length ks \<longrightarrow> \<not> truthy (readProp h (Ref a) (ks ! j)))
         \<and> list_all2 sameCell h'
              (setOwn h a (ks ! j) (if Suc j = length ks then x else Ref (length h))
               @ chain (length h) (drop (Suc j) ks) x)))
   \<and> (\<not> isObject h obj \<longrightarrow> set_path E h obj path x = Some (Inr h))"
proof (intro conjI impI)
  assume a: "splitPath path = ks \<and> isObject h obj \<and> treeOf n h obj = Some t
      \<and> viaMappings h obj ks \<and> (\<forall>k \<in> set ks. \<not> inherited E k)"
  then have ne: "ks \<noteq> []" using splitPath_nonempty by blast
  from a have pl: "\<forall>k \<in> set ks. \<not> inherited E k" and o: "isObject h obj"
    and t: "treeOf n h obj = Some t" and v: "viaMappings h obj ks"
    by blast+
  from setLoop_spec[OF ne pl o t v] obtain h' where
    1: "setLoop E h obj ks x = Some (Inr h')" and 2: "resolve h' obj ks = Some x"
    and 3: "mappingsTo h' obj ks"
    by blast
  from setLoop_store[OF ne pl o v] obtain j b where
    4: "j < length ks" "resolve h obj (take j ks) = Some (Ref b)" "isObject h (Ref b)"
       "Suc j < length ks \<longrightarrow> \<not> truthy (readProp h (Ref b) (ks ! j))"
    and 5: "setLoop E h obj ks x
          = Some (Inr (setOwn h b (ks ! j) (if Suc j = length ks then x else Ref (length h))
                       @ chain (length h) (drop (Suc j) ks) x))"
    by blast
  from 1 5 have "h' = setOwn h b (ks ! j) (if Suc j = length ks then x else Ref (length h))
                       @ chain (length h) (drop (Suc j) ks) x"
    by simp
  then have 6: "list_all2 sameCell h'
              (setOwn h b (ks ! j) (if Suc j = length ks then x else Ref (length h))
               @ chain (length h) (drop (Suc j) ks) x)"
    using sameCell_refl by simp
  have "set_path E h obj path x = Some (Inr h')" using a 1 by (simp add: set_path_def)
  with 2 3 4 6 show "\<exists>h' j a. set_path E h obj path x = Some (Inr h')
         \<and> resolve h' obj ks = Some x
         \<and> mappingsTo h' obj ks
         \<and> j < length ks \<and> resolve h obj (take j ks) = Some (Ref a) \<and> isObject h (Ref a)
         \<and> (Suc j < length ks \<longrightarrow> \<not> truthy (readProp h (Ref a) (ks ! j)))
         \<and> list_all2 sameCell h'
              (setOwn h a (ks ! j) (if Suc j = length ks then x else Ref (length h))
               @ chain (length h) (drop (Suc j) ks) x)"
    by blast
next
  assume "\<not> isObject h obj"
  then show "set_path E h obj path x = Some (Inr h)" by (simp add: set_path_def)
qed

text \<open>
  C2 as stated fails on an intermediate value that is truthy and no keyed mapping: it is
  not overwritten. \<open>set({a: 5}, 'a.b', 1)\<close> throws a TypeError (strict mode) and stores
  nothing; \<open>set({a: [7]}, 'a.0', 1)\<close> keeps the array and writes its element.
\<close>

theorem set_path_stores_counterexample:
  "set_path \<lparr>numberToString = (\<lambda>x. []), objectToString = (\<lambda>h a. []),
             stringToNumber = (\<lambda>s. NaN), toPrimitive = (\<lambda>h a. PUndef),
             inherited = (\<lambda>k. k \<in> set objectPrototype)\<rparr>
       [Obj [(''a'', Prim (PNum (Fin 5)))]] (Ref 0) ''a.b'' (Prim (PNum (Fin 1)))
     = Some (Inl TypeError)
   \<and> set_path \<lparr>numberToString = (\<lambda>x. []), objectToString = (\<lambda>h a. []),
             stringToNumber = (\<lambda>s. NaN), toPrimitive = (\<lambda>h a. PUndef),
             inherited = (\<lambda>k. k \<in> set objectPrototype)\<rparr>
       [Arr [Prim (PNum (Fin 7))], Obj [(''a'', Ref 0)]] (Ref 1) ''a.0'' (Prim (PNum (Fin 1)))
     = Some (Inr [Arr [Prim (PNum (Fin 1))], Obj [(''a'', Ref 0)]])"
  by (simp add: set_path_def store_defs getProp_def owns_def putProp_def arrayIndex_def isDigit_def
      objectPrototype_def)

theorem set_path_stores_witness:
  "splitPath ''a.b.d'' = [''a'', ''b'', ''d'']
   \<and> isObject [Obj [(''c'', Prim (PNum (Fin 1)))], Obj [(''a'', Ref 0)]] (Ref 1)
   \<and> treeOf 3 [Obj [(''c'', Prim (PNum (Fin 1)))], Obj [(''a'', Ref 0)]] (Ref 1)
       = Some (TObj 1 [(''a'', TObj 0 [(''c'', TPrim (PNum (Fin 1)))])])
   \<and> viaMappings [Obj [(''c'', Prim (PNum (Fin 1)))], Obj [(''a'', Ref 0)]] (Ref 1) [''a'', ''b'', ''d'']
   \<and> list_all (\<lambda>k. \<not> inherited \<lparr>numberToString = (\<lambda>x. []), objectToString = (\<lambda>h a. []),
             stringToNumber = (\<lambda>s. NaN), toPrimitive = (\<lambda>h a. PUndef),
             inherited = (\<lambda>k. k \<in> set objectPrototype)\<rparr> k) [''a'', ''b'', ''d'']
   \<and> set_path \<lparr>numberToString = (\<lambda>x. []), objectToString = (\<lambda>h a. []),
             stringToNumber = (\<lambda>s. NaN), toPrimitive = (\<lambda>h a. PUndef),
             inherited = (\<lambda>k. k \<in> set objectPrototype)\<rparr>
         [Obj [(''c'', Prim (PNum (Fin 1)))], Obj [(''a'', Ref 0)]] (Ref 1) ''a.b.d'' (Prim (PStr ''x''))
       = Some (Inr [Obj [(''c'', Prim (PNum (Fin 1))), (''b'', Ref 2)], Obj [(''a'', Ref 0)],
                    Obj [(''d'', Prim (PStr ''x''))]])
   \<and> resolve [Obj [(''c'', Prim (PNum (Fin 1))), (''b'', Ref 2)], Obj [(''a'', Ref 0)],
               Obj [(''d'', Prim (PStr ''x''))]] (Ref 1) [''a'', ''b'', ''d'']
       = Some (Prim (PStr ''x''))
   \<and> mappingsTo [Obj [(''c'', Prim (PNum (Fin 1))), (''b'', Ref 2)], Obj [(''a'', Ref 0)],
               Obj [(''d'', Prim (PStr ''x''))]] (Ref 1) [''a'', ''b'', ''d'']
   \<and> list_all2 sameCell
        [Obj [(''c'', Prim (PNum (Fin 1))), (''b'', Ref 2)], Obj [(''a'', Ref 0)],
         Obj [(''d'', Prim (PStr ''x''))]]
        (setOwn [Obj [(''c'', Prim (PNum (Fin 1)))], Obj [(''a'', Ref 0)]] 0 ''b'' (Ref 2)
         @ chain 2 [''d''] (Prim (PStr ''x'')))"
proof -
  let ?E = "\<lparr>numberToString = (\<lambda>x. []), objectToString = (\<lambda>h a. []),
             stringToNumber = (\<lambda>s. NaN), toPrimitive = (\<lambda>h a. PUndef),
             inherited = (\<lambda>k. k \<in> set objectPrototype)\<rparr>"
  let ?H = "[Obj [(''c'', Prim (PNum (Fin 1)))], Obj [(''a'', Ref 0)]]"
  let ?H' = "[Obj [(''c'', Prim (PNum (Fin 1))), (''b'', Ref 2)], Obj [(''a'', Ref 0)],
              Obj [(''d'', Prim (PStr ''x''))]]"
  let ?T = "TObj 1 [(''a'', TObj 0 [(''c'', TPrim (PNum (Fin 1)))])]"
  have sp: "splitPath ''a.b.d'' = [''a'', ''b'', ''d'']" by simp
  have o: "isObject ?H (Ref 1)" by (simp add: store_defs)
  have t: "treeOf 3 ?H (Ref 1) = Some ?T" by (simp add: numeral_3_eq_3 cellAt_def)
  have v: "viaMappings ?H (Ref 1) [''a'', ''b'', ''d'']" by (simp add: store_defs)
  have p: "\<forall>k \<in> set [''a'', ''b'', ''d'']. \<not> inherited ?E k" by (simp add: objectPrototype_def)
  have s: "set_path ?E ?H (Ref 1) ''a.b.d'' (Prim (PStr ''x'')) = Some (Inr ?H')"
    by (simp add: set_path_def store_defs getProp_def owns_def putProp_def objectPrototype_def)
  from sp o t v p set_path_stores[of "''a.b.d''" "[''a'', ''b'', ''d'']" ?H "Ref 1" 3 ?T ?E
      "Prim (PStr ''x'')"]
  obtain h' where "set_path ?E ?H (Ref 1) ''a.b.d'' (Prim (PStr ''x'')) = Some (Inr h')"
    and "resolve h' (Ref 1) [''a'', ''b'', ''d''] = Some (Prim (PStr ''x''))"
    and "mappingsTo h' (Ref 1) [''a'', ''b'', ''d'']"
    by blast
  with s have r: "resolve ?H' (Ref 1) [''a'', ''b'', ''d''] = Some (Prim (PStr ''x''))"
    and m: "mappingsTo ?H' (Ref 1) [''a'', ''b'', ''d'']"
    by simp_all
  have c: "list_all2 sameCell ?H' (setOwn ?H 0 ''b'' (Ref 2) @ chain 2 [''d''] (Prim (PStr ''x'')))"
    by (simp add: setOwn_def cellAt_def sameCell_def)
  have p': "list_all (\<lambda>k. \<not> inherited ?E k) [''a'', ''b'', ''d'']"
    using p by (simp add: list_all_iff)
  from sp o t v p' s r m c show ?thesis by blast
qed

subsection \<open>sortBy\<close>

lemma set_insertBy: "set (insertBy cmp x ys) = insert x (set ys)"
  by (induction ys) auto

lemma mset_insertBy: "mset (insertBy cmp x ys) = add_mset x (mset ys)"
  by (induction ys) auto

lemma mset_sortWith: "mset (sortWith cmp xs) = mset xs"
  by (induction xs) (auto simp: mset_insertBy)

lemma set_sortWith: "set (sortWith cmp xs) = set xs"
  by (induction xs) (auto simp: set_insertBy)

lemma sorted_insertBy:
  assumes c: "consistentOn cmp S" and x: "x \<in> S"
  shows "set ys \<subseteq> S \<Longrightarrow> sorted_wrt (\<lambda>a b. cmp a b \<le> 0) ys \<Longrightarrow>
         sorted_wrt (\<lambda>a b. cmp a b \<le> 0) (insertBy cmp x ys)"
proof (induction ys)
  case Nil
  then show ?case by simp
next
  case (Cons y ys)
  have y: "y \<in> S" and ys: "set ys \<subseteq> S" using Cons.prems(1) by auto
  show ?case
  proof (cases "0 < cmp x y")
    case True
    have yx: "cmp y x \<le> 0" using c x y True unfolding consistentOn_def by fastforce
    have "sorted_wrt (\<lambda>a b. cmp a b \<le> 0) (insertBy cmp x ys)"
      using Cons.IH ys Cons.prems(2) by simp
    moreover have "\<forall>z \<in> set (insertBy cmp x ys). cmp y z \<le> 0"
      using yx Cons.prems(2) by (auto simp: set_insertBy)
    ultimately show ?thesis using True by simp
  next
    case False
    then have xy: "cmp x y \<le> 0" by simp
    have "\<forall>z \<in> set ys. cmp x z \<le> 0"
    proof
      fix z assume z: "z \<in> set ys"
      then have "cmp y z \<le> 0" using Cons.prems(2) by simp
      with xy c x y z ys show "cmp x z \<le> 0" unfolding consistentOn_def by blast
    qed
    with xy Cons.prems(2) False show ?thesis by simp
  qed
qed

lemma sorted_sortWith:
  assumes "consistentOn cmp S"
  shows "set xs \<subseteq> S \<Longrightarrow> sorted_wrt (\<lambda>a b. cmp a b \<le> 0) (sortWith cmp xs)"
proof (induction xs)
  case Nil
  then show ?case by simp
next
  case (Cons x xs)
  then show ?case using sorted_insertBy[OF assms, of x "sortWith cmp xs"]
    by (simp add: set_sortWith)
qed

lemma filter_insertBy:
  assumes c: "consistentOn cmp S" and a: "a \<in> S" and x: "x \<in> S"
  shows "set ys \<subseteq> S \<Longrightarrow>
         filter (\<lambda>b. cmp a b = 0) (insertBy cmp x ys) = filter (\<lambda>b. cmp a b = 0) (x # ys)"
proof (induction ys)
  case Nil
  then show ?case by simp
next
  case (Cons y ys)
  have y: "y \<in> S" and ys: "set ys \<subseteq> S" using Cons.prems by auto
  show ?case
  proof (cases "0 < cmp x y")
    case False
    then show ?thesis by simp
  next
    case True
    have "\<not> (cmp a x = 0 \<and> cmp a y = 0)"
    proof
      assume e: "cmp a x = 0 \<and> cmp a y = 0"
      then have "cmp x a = 0" using c a x unfolding consistentOn_def by blast
      with e have "cmp x a \<le> 0 \<and> cmp a y \<le> 0" by simp
      then have "cmp x y \<le> 0" using c a x y unfolding consistentOn_def by blast
      with True show False by simp
    qed
    then show ?thesis using True Cons.IH[OF ys] by auto
  qed
qed

lemma stable_sortWith:
  assumes c: "consistentOn cmp S" and a: "a \<in> S"
  shows "set xs \<subseteq> S \<Longrightarrow>
         filter (\<lambda>b. cmp a b = 0) (sortWith cmp xs) = filter (\<lambda>b. cmp a b = 0) xs"
proof (induction xs)
  case Nil
  then show ?case by simp
next
  case (Cons x xs)
  have x: "x \<in> S" and xs: "set xs \<subseteq> S" using Cons.prems by auto
  have "set (sortWith cmp xs) \<subseteq> S" using xs by (simp add: set_sortWith)
  from filter_insertBy[OF c a x this] Cons.IH[OF xs] show ?case by simp
qed

text \<open>The order of strings and of numbers.\<close>

lemma strLess_irrefl: "\<not> strLess s s"
  by (induction s) auto

lemma strLess_trans: "strLess s t \<Longrightarrow> strLess t u \<Longrightarrow> strLess s u"
proof (induction s t arbitrary: u rule: strLess.induct)
  case (4 x xs y ys)
  then obtain z zs where u: "u = z # zs" by (cases u) auto
  from 4 show ?case unfolding u by (auto intro: less_trans)
next
  case (2 y ys)
  then show ?case by (cases u) auto
qed auto

lemma strLess_total: "strLess s t \<or> s = t \<or> strLess t s"
proof (induction s t rule: strLess.induct)
  case (4 x xs y ys)
  have "(of_char x :: nat) < of_char y \<or> x = y \<or> (of_char y :: nat) < of_char x"
    by (metis linorder_neqE_nat of_char_eq_iff)
  with 4 show ?case by auto
qed auto

lemma numLess_irrefl: "\<not> numLess x x"
  by (cases x) auto

lemma numLess_trans: "numLess x y \<Longrightarrow> numLess y z \<Longrightarrow> numLess x z"
  by (cases x; cases y; cases z) auto

lemma numLess_total: "x \<noteq> NaN \<Longrightarrow> y \<noteq> NaN \<Longrightarrow> numLess x y \<or> x = y \<or> numLess y x"
  by (cases x; cases y) auto

lemma comparator_step:
  "comparator E h (k # ks) os a b =
     (if keyLess E h k a b then (if orderAt os = ''asc'' then - 1 else 1)
      else if keyLess E h k b a then (if orderAt os = ''asc'' then 1 else - 1)
      else comparator E h ks (tl os) a b)"
  by (simp add: keyLess_def)

lemma lex_consistent:
  fixes L :: "val \<Rightarrow> val \<Rightarrow> bool" and R :: "val \<Rightarrow> val \<Rightarrow> int" and d :: int
  assumes irr: "\<And>a. a \<in> S \<Longrightarrow> \<not> L a a"
    and tr: "\<And>a b c. a \<in> S \<Longrightarrow> b \<in> S \<Longrightarrow> c \<in> S \<Longrightarrow> L a b \<Longrightarrow> L b c \<Longrightarrow> L a c"
    and nt: "\<And>a b c. a \<in> S \<Longrightarrow> b \<in> S \<Longrightarrow> c \<in> S \<Longrightarrow> L a b \<Longrightarrow> L a c \<or> L c b"
    and R: "consistentOn R S" and d: "d = 1 \<or> d = - 1"
  shows "consistentOn (\<lambda>a b. if L a b then d else if L b a then - d else R a b) S"
proof -
  let ?cmp = "\<lambda>a b. if L a b then d else if L b a then - d else R a b"
  have asym: "\<And>a b. a \<in> S \<Longrightarrow> b \<in> S \<Longrightarrow> L a b \<Longrightarrow> \<not> L b a"
    using irr tr by blast
  have sign: "\<forall>a \<in> S. \<forall>b \<in> S. (0 < ?cmp a b \<longrightarrow> ?cmp b a < 0) \<and> (?cmp a b = 0 \<longrightarrow> ?cmp b a = 0)"
  proof (intro ballI)
    fix a b assume a: "a \<in> S" and b: "b \<in> S"
    have r: "(0 < R a b \<longrightarrow> R b a < 0) \<and> (R a b = 0 \<longrightarrow> R b a = 0)"
      using R a b unfolding consistentOn_def by blast
    show "(0 < ?cmp a b \<longrightarrow> ?cmp b a < 0) \<and> (?cmp a b = 0 \<longrightarrow> ?cmp b a = 0)"
      using asym[OF a b] asym[OF b a] r d by auto
  qed
  have trans: "\<forall>a \<in> S. \<forall>b \<in> S. \<forall>c \<in> S. ?cmp a b \<le> 0 \<and> ?cmp b c \<le> 0 \<longrightarrow> ?cmp a c \<le> 0"
  proof (intro ballI impI)
    fix a b c assume a: "a \<in> S" and b: "b \<in> S" and c: "c \<in> S"
      and le: "?cmp a b \<le> 0 \<and> ?cmp b c \<le> 0"
    have rt: "R a b \<le> 0 \<Longrightarrow> R b c \<le> 0 \<Longrightarrow> R a c \<le> 0"
      using R a b c unfolding consistentOn_def by blast
    text \<open>Ties are transitive, and a tie carries a strict step on either side.\<close>
    have tie: "\<not> L a b \<Longrightarrow> \<not> L b a \<Longrightarrow> \<not> L b c \<Longrightarrow> \<not> L c b \<Longrightarrow> \<not> L a c \<and> \<not> L c a"
      using nt[OF a c b] nt[OF c a b] by blast
    have l1: "L a b \<Longrightarrow> \<not> L c b \<Longrightarrow> L a c" using nt[OF a b c] by blast
    have l2: "L b c \<Longrightarrow> \<not> L b a \<Longrightarrow> L a c" using nt[OF b c a] by blast
    have g1: "L b a \<Longrightarrow> \<not> L b c \<Longrightarrow> L c a" using nt[OF b a c] by blast
    have g2: "L c b \<Longrightarrow> \<not> L a b \<Longrightarrow> L c a" using nt[OF c b a] by blast
    note as = asym[OF a b] asym[OF b a] asym[OF b c] asym[OF c b] asym[OF a c] asym[OF c a]
    from d show "?cmp a c \<le> 0"
    proof
      assume d1: "d = 1"
      with le as have ab: "L b a \<or> (\<not> L a b \<and> \<not> L b a \<and> R a b \<le> 0)"
        and bc: "L c b \<or> (\<not> L b c \<and> \<not> L c b \<and> R b c \<le> 0)"
        by (auto split: if_splits)
      from ab bc have "L c a \<or> (\<not> L a c \<and> \<not> L c a \<and> R a c \<le> 0)"
        using tr[OF c b a] g1 g2 tie rt as by blast
      with d1 as show ?thesis by auto
    next
      assume d2: "d = - 1"
      with le as have ab: "L a b \<or> (\<not> L a b \<and> \<not> L b a \<and> R a b \<le> 0)"
        and bc: "L b c \<or> (\<not> L b c \<and> \<not> L c b \<and> R b c \<le> 0)"
        by (auto split: if_splits)
      from ab bc have "L a c \<or> (\<not> L a c \<and> \<not> L c a \<and> R a c \<le> 0)"
        using tr[OF a b c] l1 l2 tie rt as by blast
      with d2 as show ?thesis by auto
    qed
  qed
  from sign trans show ?thesis unfolding consistentOn_def by blast
qed

lemma keyLess_order:
  assumes u: "uniformAt h k xs"
  shows "\<And>a. a \<in> set xs \<Longrightarrow> \<not> keyLess E h k a a"
    and "\<And>a b c. a \<in> set xs \<Longrightarrow> b \<in> set xs \<Longrightarrow> c \<in> set xs \<Longrightarrow>
           keyLess E h k a b \<Longrightarrow> keyLess E h k b c \<Longrightarrow> keyLess E h k a c"
    and "\<And>a b c. a \<in> set xs \<Longrightarrow> b \<in> set xs \<Longrightarrow> c \<in> set xs \<Longrightarrow>
           keyLess E h k a b \<Longrightarrow> keyLess E h k a c \<or> keyLess E h k c b"
proof -
  from u consider
    (str) "\<forall>x \<in> set xs. \<exists>s. readProp h x k = Prim (PStr s)"
    | (num) "\<forall>x \<in> set xs. \<exists>n. readProp h x k = Prim (PNum n) \<and> n \<noteq> NaN"
    unfolding uniformAt_def by blast
  then have "(\<forall>a \<in> set xs. \<not> keyLess E h k a a)
    \<and> (\<forall>a \<in> set xs. \<forall>b \<in> set xs. \<forall>c \<in> set xs.
          keyLess E h k a b \<longrightarrow> keyLess E h k b c \<longrightarrow> keyLess E h k a c)
    \<and> (\<forall>a \<in> set xs. \<forall>b \<in> set xs. \<forall>c \<in> set xs.
          keyLess E h k a b \<longrightarrow> keyLess E h k a c \<or> keyLess E h k c b)"
  proof cases
    case str
    define f where "f x = (case readProp h x k of Prim (PStr s) \<Rightarrow> toLowerCase s | _ \<Rightarrow> [])" for x
    have kl: "\<And>a b. a \<in> set xs \<Longrightarrow> b \<in> set xs \<Longrightarrow> keyLess E h k a b = strLess (f a) (f b)"
    proof -
      fix a b assume "a \<in> set xs" "b \<in> set xs"
      with str obtain s t where "readProp h a k = Prim (PStr s)" "readProp h b k = Prim (PStr t)"
        by blast
      then show "keyLess E h k a b = strLess (f a) (f b)"
        by (simp add: keyLess_def jsLess_def lowered_def toPrim_def f_def)
    qed
    show ?thesis
    proof (intro conjI ballI impI)
      fix a assume "a \<in> set xs"
      then show "\<not> keyLess E h k a a" using kl strLess_irrefl by simp
    next
      fix a b c assume "a \<in> set xs" "b \<in> set xs" "c \<in> set xs"
        "keyLess E h k a b" "keyLess E h k b c"
      then show "keyLess E h k a c" using kl strLess_trans by metis
    next
      fix a b c assume m: "a \<in> set xs" "b \<in> set xs" "c \<in> set xs" and l: "keyLess E h k a b"
      from l m have ab: "strLess (f a) (f b)" using kl by simp
      from strLess_total[of "f a" "f c"] have "strLess (f a) (f c) \<or> strLess (f c) (f b)"
        using ab strLess_trans by metis
      then show "keyLess E h k a c \<or> keyLess E h k c b" using kl m by simp
    qed
  next
    case num
    define f where "f x = (case readProp h x k of Prim (PNum n) \<Rightarrow> n | _ \<Rightarrow> Fin 0)" for x
    have nn: "\<And>a. a \<in> set xs \<Longrightarrow> f a \<noteq> NaN"
    proof -
      fix a assume "a \<in> set xs"
      with num obtain n where "readProp h a k = Prim (PNum n)" "n \<noteq> NaN" by blast
      then show "f a \<noteq> NaN" by (simp add: f_def)
    qed
    have kl: "\<And>a b. a \<in> set xs \<Longrightarrow> b \<in> set xs \<Longrightarrow> keyLess E h k a b = numLess (f a) (f b)"
    proof -
      fix a b assume "a \<in> set xs" "b \<in> set xs"
      with num obtain s t where "readProp h a k = Prim (PNum s)" "readProp h b k = Prim (PNum t)"
        by blast
      then show "keyLess E h k a b = numLess (f a) (f b)"
        by (simp add: keyLess_def jsLess_def lowered_def toPrim_def toNumber_def f_def)
    qed
    show ?thesis
    proof (intro conjI ballI impI)
      fix a assume "a \<in> set xs"
      then show "\<not> keyLess E h k a a" using kl numLess_irrefl by simp
    next
      fix a b c assume "a \<in> set xs" "b \<in> set xs" "c \<in> set xs"
        "keyLess E h k a b" "keyLess E h k b c"
      then show "keyLess E h k a c" using kl numLess_trans by metis
    next
      fix a b c assume m: "a \<in> set xs" "b \<in> set xs" "c \<in> set xs" and l: "keyLess E h k a b"
      from l m have ab: "numLess (f a) (f b)" using kl by simp
      from numLess_total[OF nn[OF m(1)] nn[OF m(3)]]
      have "numLess (f a) (f c) \<or> numLess (f c) (f b)"
        using ab numLess_trans by metis
      then show "keyLess E h k a c \<or> keyLess E h k c b" using kl m by simp
    qed
  qed
  then show "\<And>a. a \<in> set xs \<Longrightarrow> \<not> keyLess E h k a a"
    and "\<And>a b c. a \<in> set xs \<Longrightarrow> b \<in> set xs \<Longrightarrow> c \<in> set xs \<Longrightarrow>
           keyLess E h k a b \<Longrightarrow> keyLess E h k b c \<Longrightarrow> keyLess E h k a c"
    and "\<And>a b c. a \<in> set xs \<Longrightarrow> b \<in> set xs \<Longrightarrow> c \<in> set xs \<Longrightarrow>
           keyLess E h k a b \<Longrightarrow> keyLess E h k a c \<or> keyLess E h k c b"
    by blast+
qed

lemma comparator_consistent:
  "\<forall>k \<in> set ks. uniformAt h k xs \<Longrightarrow> consistentOn (comparator E h ks os) (set xs)"
proof (induction ks arbitrary: os)
  case Nil
  then show ?case by (simp add: consistentOn_def)
next
  case (Cons k ks)
  have u: "uniformAt h k xs" and rest: "\<forall>k \<in> set ks. uniformAt h k xs" using Cons.prems by auto
  define d :: int where "d = (if orderAt os = ''asc'' then - 1 else 1)"
  have d: "d = 1 \<or> d = - 1" by (simp add: d_def)
  have eq: "comparator E h (k # ks) os
      = (\<lambda>a b. if keyLess E h k a b then d else if keyLess E h k b a then - d
               else comparator E h ks (tl os) a b)"
    unfolding comparator_step d_def by (intro ext) simp
  show ?case unfolding eq
    by (rule lex_consistent[OF keyLess_order[OF u] Cons.IH[OF rest] d])
qed

text \<open>On a uniform key the comparator's test is the order of the values: text without
  regard to case, numbers by size.\<close>

lemma keyLess_uniform:
  assumes u: "uniformAt h k xs" and a: "a \<in> set xs" and b: "b \<in> set xs"
  shows "keyLess E h k a b = valueLess (readProp h a k) (readProp h b k)"
proof -
  from u consider
    (str) "\<forall>x \<in> set xs. \<exists>s. readProp h x k = Prim (PStr s)"
    | (num) "\<forall>x \<in> set xs. \<exists>n. readProp h x k = Prim (PNum n) \<and> n \<noteq> NaN"
    unfolding uniformAt_def by blast
  then show ?thesis
  proof cases
    case str
    with a b obtain s t where "readProp h a k = Prim (PStr s)" "readProp h b k = Prim (PStr t)"
      by blast
    then show ?thesis by (simp add: keyLess_def jsLess_def lowered_def toPrim_def)
  next
    case num
    with a b obtain s t where "readProp h a k = Prim (PNum s)" "readProp h b k = Prim (PNum t)"
      by blast
    then show ?thesis by (simp add: keyLess_def jsLess_def lowered_def toPrim_def toNumber_def)
  qed
qed

lemma orderAt_ascending: "(orderAt os = ''asc'') = ascending os"
  by (cases os) (auto simp: orderAt_def ascending_def)

lemma comparator_inOrder:
  assumes a: "a \<in> set xs" and b: "b \<in> set xs"
  shows "\<forall>k \<in> set ks. uniformAt h k xs \<Longrightarrow>
         (comparator E h ks os a b \<le> 0) = inOrder h ks os a b"
proof (induction ks arbitrary: os)
  case Nil
  then show ?case by simp
next
  case (Cons k ks)
  have u: "uniformAt h k xs" and rest: "\<forall>k \<in> set ks. uniformAt h k xs" using Cons.prems by auto
  note kl = keyLess_uniform[OF u a b, of E] keyLess_uniform[OF u b a, of E]
  show ?case
    unfolding comparator_step inOrder.simps kl orderAt_ascending
    using Cons.IH[OF rest, of "tl os"] by simp
qed

lemma comparator_tied:
  assumes a: "a \<in> set xs" and b: "b \<in> set xs"
  shows "\<forall>k \<in> set ks. uniformAt h k xs \<Longrightarrow>
         (comparator E h ks os a b = 0) = tied h ks a b"
proof (induction ks arbitrary: os)
  case Nil
  then show ?case by (simp add: tied_def)
next
  case (Cons k ks)
  have u: "uniformAt h k xs" and rest: "\<forall>k \<in> set ks. uniformAt h k xs" using Cons.prems by auto
  note kl = keyLess_uniform[OF u a b, of E] keyLess_uniform[OF u b a, of E]
  show ?case
    unfolding comparator_step kl
    using Cons.IH[OF rest, of "tl os"] by (simp add: tied_def)
qed

lemma sorted_wrt_cong_set:
  "(\<And>a b. a \<in> set ys \<Longrightarrow> b \<in> set ys \<Longrightarrow> P a b = Q a b) \<Longrightarrow> sorted_wrt P ys = sorted_wrt Q ys"
  by (induction ys) auto

lemma filter_cong_set:
  "(\<And>b. b \<in> set ys \<Longrightarrow> P b = Q b) \<Longrightarrow> filter P ys = filter Q ys"
  by (induction ys) auto

lemma uniform_owned:
  assumes "uniformAt h k xs" and "x \<in> set xs" and "isObject h x"
  shows "owns h x k"
proof -
  from assms(1,2) have "readProp h x k \<noteq> Prim PUndef" unfolding uniformAt_def by auto
  then have "getOwn (ownProps h x) k \<noteq> Prim PUndef" using object_props(1)[OF assms(3)] by simp
  then have "(k, getOwn (ownProps h x) k) \<in> set (ownProps h x)" by (rule getOwn_defined)
  then have "k \<in> fst ` set (ownProps h x)" by force
  then show ?thesis using object_props(2)[OF assms(3)] by simp
qed

lemma sortBy_objects:
  assumes "isArray h array" and "\<forall>x \<in> set (items h array). isObject h x"
    and "\<forall>k \<in> set (keysOf key). uniformAt h k (items h array)"
  shows "sortBy E h array key order
     = Some (Inr (h @ [Arr (sortWith (comparator E h (keysOf key) (ordersOf order)) (items h array))],
                  Ref (length h)))"
proof -
  have r: "\<forall>x \<in> set (items h array). x \<noteq> Prim PUndef \<and> x \<noteq> Prim PNull"
    using assms(2) by (auto simp: isObject_def)
  then have 1: "filter (\<lambda>x. x \<noteq> Prim PUndef) (items h array) = items h array"
    and 2: "filter (\<lambda>x. x = Prim PUndef) (items h array) = []"
    by (auto simp: filter_empty_conv)
  have 3: "Prim PNull \<notin> set (items h array)" using r by auto
  have "\<forall>x \<in> set (items h array). \<forall>k \<in> set (keysOf key). getProp E h x k \<noteq> None"
  proof (intro ballI)
    fix x k assume x: "x \<in> set (items h array)" and k: "k \<in> set (keysOf key)"
    have "owns h x k" using assms(2,3) x k uniform_owned by blast
    then show "getProp E h x k \<noteq> None" by (simp add: getProp_owned)
  qed
  then have 4: "list_all (readable E h (keysOf key)) (items h array)"
    by (simp add: readable_def list_all_iff)
  show ?thesis using assms(1) 1 2 3 4 by (simp add: sortBy_def Let_def)
qed

text \<open>
  C6, as the code has it. Let the input be a sequence of keyed mappings in which every
  sort key is uniform: a string in every element, or a number other than NaN in every
  element. Then \<open>sortBy\<close> returns a new sequence, a fresh cell of the store that leaves
  the input as it is, holding a rearrangement of the input that is in the order of a
  multi-key sort: of any two elements the earlier one differs from the later at no key,
  or at the first key where they differ it has the smaller value when that key is
  ascending and the greater when it is descending. Text is compared without regard to
  case; an order entry that is missing, empty or \<open>'asc'\<close> is ascending and any other is
  descending. Elements that are tied at every key keep their order.
\<close>

theorem sortBy_stable:
  "isArray h array \<and> items h array = xs \<and> (\<forall>x \<in> set xs. isObject h x)
     \<and> keysOf key = ks \<and> ordersOf order = os \<and> (\<forall>k \<in> set ks. uniformAt h k xs) \<longrightarrow>
   (\<exists>ys. sortBy E h array key order = Some (Inr (h @ [Arr ys], Ref (length h)))
      \<and> array \<noteq> Ref (length h)
      \<and> items (h @ [Arr ys]) array = xs
      \<and> mset ys = mset xs
      \<and> sorted_wrt (inOrder h ks os) ys
      \<and> (\<forall>a \<in> set xs. filter (tied h ks a) ys = filter (tied h ks a) xs))"
proof
  let ?cmp = "comparator E h ks os"
  let ?ys = "sortWith ?cmp xs"
  assume a: "isArray h array \<and> items h array = xs \<and> (\<forall>x \<in> set xs. isObject h x)
     \<and> keysOf key = ks \<and> ordersOf order = os \<and> (\<forall>k \<in> set ks. uniformAt h k xs)"
  then have u: "\<forall>k \<in> set ks. uniformAt h k xs" by blast
  from a have s: "sortBy E h array key order = Some (Inr (h @ [Arr ?ys], Ref (length h)))"
    using sortBy_objects[of h array key E order] by auto
  from a obtain p where p: "array = Ref p" "p < length h"
    by (auto simp: isArray_def cellAt_def split: val.splits if_splits)
  have n: "array \<noteq> Ref (length h)" using p by simp
  have i: "items (h @ [Arr ?ys]) array = xs"
    using a p by (simp add: items_def cellAt_def nth_append)
  have c: "consistentOn ?cmp (set xs)" using u by (rule comparator_consistent)
  have st: "set ?ys = set xs" by (rule set_sortWith)
  have 1: "mset ?ys = mset xs" by (rule mset_sortWith)
  have "sorted_wrt (\<lambda>a b. ?cmp a b \<le> 0) ?ys" using c by (rule sorted_sortWith) simp
  moreover have "sorted_wrt (\<lambda>a b. ?cmp a b \<le> 0) ?ys = sorted_wrt (inOrder h ks os) ?ys"
    by (rule sorted_wrt_cong_set) (use st u comparator_inOrder in blast)
  ultimately have 2: "sorted_wrt (inOrder h ks os) ?ys" by simp
  have 3: "\<forall>a \<in> set xs. filter (tied h ks a) ?ys = filter (tied h ks a) xs"
  proof
    fix a assume am: "a \<in> set xs"
    have "filter (\<lambda>b. ?cmp a b = 0) ?ys = filter (\<lambda>b. ?cmp a b = 0) xs"
      using stable_sortWith[OF c am] by simp
    moreover have "filter (\<lambda>b. ?cmp a b = 0) ?ys = filter (tied h ks a) ?ys"
      by (rule filter_cong_set) (use st u am comparator_tied in blast)
    moreover have "filter (\<lambda>b. ?cmp a b = 0) xs = filter (tied h ks a) xs"
      by (rule filter_cong_set) (use u am comparator_tied in blast)
    ultimately show "filter (tied h ks a) ?ys = filter (tied h ks a) xs" by simp
  qed
  from s n i 1 2 3
  show "\<exists>ys. sortBy E h array key order = Some (Inr (h @ [Arr ys], Ref (length h)))
      \<and> array \<noteq> Ref (length h)
      \<and> items (h @ [Arr ys]) array = xs
      \<and> mset ys = mset xs
      \<and> sorted_wrt (inOrder h ks os) ys
      \<and> (\<forall>a \<in> set xs. filter (tied h ks a) ys = filter (tied h ks a) xs)"
    by blast
qed

lemmas sort_defs = sortBy_def Let_def readable_def getProp_def owns_def keysOf_def ordersOf_def
  orderAt_def jsLess_def lowered_def toPrim_def toNumber_def toLowerCase_def lowerChar_def

text \<open>
  C6 as stated fails on mappings that lack a sort key. Sorting \<open>[{n: 2}, {}, {n: 1}]\<close> by
  \<open>n\<close> returns the input order, since \<open>undefined\<close> ties with every number: \<open>{n: 2}\<close>
  stays before \<open>{n: 1}\<close>, and the result is not sorted.
\<close>

theorem sortBy_stable_counterexample:
  "sortBy \<lparr>numberToString = (\<lambda>x. []), objectToString = (\<lambda>h a. []),
            stringToNumber = (\<lambda>s. NaN), toPrimitive = (\<lambda>h a. PUndef),
            inherited = (\<lambda>k. k \<in> set objectPrototype)\<rparr>
      [Obj [(''n'', Prim (PNum (Fin 2)))], Obj [], Obj [(''n'', Prim (PNum (Fin 1)))],
       Arr [Ref 0, Ref 1, Ref 2]] (Ref 3) (OneKey ''n'') NoOrder
     = Some (Inr ([Obj [(''n'', Prim (PNum (Fin 2)))], Obj [], Obj [(''n'', Prim (PNum (Fin 1)))],
                   Arr [Ref 0, Ref 1, Ref 2], Arr [Ref 0, Ref 1, Ref 2]], Ref 4))
   \<and> \<not> sorted_wrt
        (inOrder [Obj [(''n'', Prim (PNum (Fin 2)))], Obj [], Obj [(''n'', Prim (PNum (Fin 1)))],
                  Arr [Ref 0, Ref 1, Ref 2]] [''n''] [''asc''])
        [Ref 0, Ref 1, Ref 2]"
  by (simp add: sort_defs store_defs objectPrototype_def ascending_def)

theorem sortBy_stable_witness:
  "isArray [Obj [(''n'', Prim (PStr ''amy'')), (''a'', Prim (PNum (Fin 30)))],
            Obj [(''n'', Prim (PStr ''Bob'')), (''a'', Prim (PNum (Fin 30)))],
            Arr [Ref 0, Ref 1]] (Ref 2)
   \<and> items [Obj [(''n'', Prim (PStr ''amy'')), (''a'', Prim (PNum (Fin 30)))],
            Obj [(''n'', Prim (PStr ''Bob'')), (''a'', Prim (PNum (Fin 30)))],
            Arr [Ref 0, Ref 1]] (Ref 2) = [Ref 0, Ref 1]
   \<and> isObject [Obj [(''n'', Prim (PStr ''amy'')), (''a'', Prim (PNum (Fin 30)))],
            Obj [(''n'', Prim (PStr ''Bob'')), (''a'', Prim (PNum (Fin 30)))],
            Arr [Ref 0, Ref 1]] (Ref 0)
   \<and> isObject [Obj [(''n'', Prim (PStr ''amy'')), (''a'', Prim (PNum (Fin 30)))],
            Obj [(''n'', Prim (PStr ''Bob'')), (''a'', Prim (PNum (Fin 30)))],
            Arr [Ref 0, Ref 1]] (Ref 1)
   \<and> keysOf (KeyList [''a'', ''n'']) = [''a'', ''n'']
   \<and> ordersOf (OrderList [''asc'', ''desc'']) = [''asc'', ''desc'']
   \<and> uniformAt [Obj [(''n'', Prim (PStr ''amy'')), (''a'', Prim (PNum (Fin 30)))],
            Obj [(''n'', Prim (PStr ''Bob'')), (''a'', Prim (PNum (Fin 30)))],
            Arr [Ref 0, Ref 1]] ''a'' [Ref 0, Ref 1]
   \<and> uniformAt [Obj [(''n'', Prim (PStr ''amy'')), (''a'', Prim (PNum (Fin 30)))],
            Obj [(''n'', Prim (PStr ''Bob'')), (''a'', Prim (PNum (Fin 30)))],
            Arr [Ref 0, Ref 1]] ''n'' [Ref 0, Ref 1]
   \<and> sortBy \<lparr>numberToString = (\<lambda>x. []), objectToString = (\<lambda>h a. []),
            stringToNumber = (\<lambda>s. NaN), toPrimitive = (\<lambda>h a. PUndef),
            inherited = (\<lambda>k. k \<in> set objectPrototype)\<rparr>
        [Obj [(''n'', Prim (PStr ''amy'')), (''a'', Prim (PNum (Fin 30)))],
         Obj [(''n'', Prim (PStr ''Bob'')), (''a'', Prim (PNum (Fin 30)))],
         Arr [Ref 0, Ref 1]] (Ref 2) (KeyList [''a'', ''n'']) (OrderList [''asc'', ''desc''])
       = Some (Inr ([Obj [(''n'', Prim (PStr ''amy'')), (''a'', Prim (PNum (Fin 30)))],
                     Obj [(''n'', Prim (PStr ''Bob'')), (''a'', Prim (PNum (Fin 30)))],
                     Arr [Ref 0, Ref 1], Arr [Ref 1, Ref 0]], Ref 3))
   \<and> sorted_wrt
        (inOrder [Obj [(''n'', Prim (PStr ''amy'')), (''a'', Prim (PNum (Fin 30)))],
                  Obj [(''n'', Prim (PStr ''Bob'')), (''a'', Prim (PNum (Fin 30)))],
                  Arr [Ref 0, Ref 1]] [''a'', ''n''] [''asc'', ''desc''])
        [Ref 1, Ref 0]
   \<and> toLowerCase ''Bob'' = ''bob''
   \<and> toLowerCase [char_of (201 :: nat), char_of (215 :: nat)] = [char_of (233 :: nat), char_of (215 :: nat)]"
proof -
  let ?E = "\<lparr>numberToString = (\<lambda>x. []), objectToString = (\<lambda>h a. []),
            stringToNumber = (\<lambda>s. NaN), toPrimitive = (\<lambda>h a. PUndef),
            inherited = (\<lambda>k. k \<in> set objectPrototype)\<rparr>"
  let ?H = "[Obj [(''n'', Prim (PStr ''amy'')), (''a'', Prim (PNum (Fin 30)))],
            Obj [(''n'', Prim (PStr ''Bob'')), (''a'', Prim (PNum (Fin 30)))],
            Arr [Ref 0, Ref 1]]"
  have a: "isArray ?H (Ref 2)" and o0: "isObject ?H (Ref 0)" and o1: "isObject ?H (Ref 1)"
    and it: "items ?H (Ref 2) = [Ref 0, Ref 1]"
    by (simp_all add: store_defs)
  have ks: "keysOf (KeyList [''a'', ''n'']) = [''a'', ''n'']"
    and os: "ordersOf (OrderList [''asc'', ''desc'']) = [''asc'', ''desc'']"
    by (simp_all add: keysOf_def ordersOf_def)
  have ua: "uniformAt ?H ''a'' [Ref 0, Ref 1]" and un: "uniformAt ?H ''n'' [Ref 0, Ref 1]"
    by (simp_all add: uniformAt_def store_defs)
  have hyp: "isArray ?H (Ref 2) \<and> items ?H (Ref 2) = [Ref 0, Ref 1]
      \<and> (\<forall>x \<in> set [Ref 0, Ref 1]. isObject ?H x)
      \<and> keysOf (KeyList [''a'', ''n'']) = [''a'', ''n'']
      \<and> ordersOf (OrderList [''asc'', ''desc'']) = [''asc'', ''desc'']
      \<and> (\<forall>k \<in> set [''a'', ''n'']. uniformAt ?H k [Ref 0, Ref 1])"
    using a o0 o1 it ks os ua un by simp
  have l: "toLowerCase ''Bob'' = ''bob''"
    by (simp add: toLowerCase_def lowerChar_def char_of_def bit_Suc_0_iff)
  have l2: "toLowerCase [char_of (201 :: nat), char_of (215 :: nat)]
      = [char_of (233 :: nat), char_of (215 :: nat)]"
    by (simp add: toLowerCase_def lowerChar_def)
  have e: "sortBy ?E ?H (Ref 2) (KeyList [''a'', ''n'']) (OrderList [''asc'', ''desc''])
      = Some (Inr (?H @ [Arr [Ref 1, Ref 0]], Ref 3))"
    by (simp add: sort_defs store_defs char_of_def bit_Suc_0_iff)
  from hyp sortBy_stable[of ?H "Ref 2" "[Ref 0, Ref 1]" "KeyList [''a'', ''n'']" "[''a'', ''n'']"
      "OrderList [''asc'', ''desc'']" "[''asc'', ''desc'']" ?E]
  obtain ys where "sortBy ?E ?H (Ref 2) (KeyList [''a'', ''n'']) (OrderList [''asc'', ''desc''])
      = Some (Inr (?H @ [Arr ys], Ref (length ?H)))"
    and "sorted_wrt (inOrder ?H [''a'', ''n''] [''asc'', ''desc'']) ys"
    by blast
  with e have s: "sorted_wrt (inOrder ?H [''a'', ''n''] [''asc'', ''desc'']) [Ref 1, Ref 0]" by simp
  from a it o0 o1 ks os ua un e s l l2 show ?thesis by simp
qed


end
